theory Spec2Isabelle
  imports Complex_Main "HOL-Library.Multiset" "HOL-Library.While_Combinator"
    "HOL-Library.Char_ord" "HOL-Library.List_Lexorder" "HOL-Library.Product_Lexorder"
    "HOL-Library.Log_Nat"
begin

section \<open>Data model\<close>

text \<open>
  The three allocator scripts (\<^verbatim>\<open>Exam1_Seat_allocator.py\<close>,
  \<^verbatim>\<open>University_Exam_Seat_Allocater.py\<close> and its copy under \<^verbatim>\<open>pdf_reports\<close>) keep
  students and halls as lists of dictionaries. A student dictionary has the keys
  \<^verbatim>\<open>reg_no\<close>, \<^verbatim>\<open>department\<close>, \<^verbatim>\<open>course_code\<close>, \<^verbatim>\<open>course_title\<close> and, in
  \<^verbatim>\<open>Exam1\<close> only, \<^verbatim>\<open>date\<close>. A hall dictionary has \<^verbatim>\<open>hall_code\<close>, \<^verbatim>\<open>hall_name\<close>,
  \<^verbatim>\<open>block\<close>, \<^verbatim>\<open>rows\<close>, \<^verbatim>\<open>cols\<close> and \<^verbatim>\<open>total_capacity\<close>. The grid dimensions are
  natural numbers here (the data model asks for positive ones); the declared capacity
  is an unbounded Python integer.
\<close>

record student =
  reg_no :: string
  department :: string
  course_code :: string
  course_title :: string
  date :: "string option"

record hall =
  hall_code :: string
  hall_name :: string
  block :: string
  rows :: nat
  cols :: nat
  total_capacity :: int

text \<open>The value stored in \<^verbatim>\<open>self.allocations[reg_no]\<close>; rows and columns are 1-based.\<close>

record assignment =
  a_hall_code :: string
  a_hall_name :: string
  a_block :: string
  a_row :: nat
  a_col :: nat
  a_course_code :: string
  a_course_title :: string
  a_department :: string
  a_date :: "string option"

type_synonym grid = "string option list list"

text \<open>
  The mutable part of an \<^verbatim>\<open>ExamSeatAllocator\<close> object that the allocation writes:
  the ledger \<^verbatim>\<open>allocations\<close> and the per-hall grids \<^verbatim>\<open>hall_seats\<close>, both dictionaries.
  (\<^verbatim>\<open>hall_courses\<close> is written but never read by the allocation and is left out.)
\<close>

record allocator =
  allocations :: "string \<rightharpoonup> assignment"
  hall_seats :: "string \<rightharpoonup> grid"

text \<open>
  Every failure of the scripts is a Python \<^verbatim>\<open>ValueError\<close> told apart by its message.
  The constructors name the raise sites after the taxonomy of the specification:
  \<^item> \<open>CapacityError\<close>: the two raises of \<^verbatim>\<open>validate_inputs\<close>;
  \<^item> \<open>InsufficientCapacityError\<close>: "Not enough selected hall seats ... after
    25-seat-block selection";
  \<^item> \<open>UnallocatedStudentsError n\<close>: "Could not allocate all students. Remaining ...: n";
  \<^item> \<open>IndexError\<close>, \<open>KeyError\<close>: what Python raises on a list index out of range and on
    a missing dictionary key.
  A raise leaves the object in the state reached so far, so a failed run is
  \<open>Inl (error, state at the raise)\<close>.
\<close>

datatype error =
  CapacityError | InsufficientCapacityError | UnallocatedStudentsError nat
  | IndexError | KeyError

type_synonym 'a result = "(error \<times> allocator) + 'a"

definition grid_capacity :: "hall \<Rightarrow> nat" where
  "grid_capacity h = rows h * cols h"

text \<open>\<^verbatim>\<open>usable_capacity = min(hall_capacity, grid_capacity)\<close>, as Exam1 computes it.\<close>

definition usable_capacity :: "hall \<Rightarrow> int" where
  "usable_capacity h = min (total_capacity h) (int (rows h * cols h))"

definition empty_grid :: "hall \<Rightarrow> grid" where
  "empty_grid h = replicate (rows h) (replicate (cols h) None)"

text \<open>\<^verbatim>\<open>__init__\<close>: an empty ledger and one grid of \<^verbatim>\<open>None\<close> per hall code (a later hall
  with the same code replaces the grid of an earlier one).\<close>

definition init :: "hall list \<Rightarrow> allocator" where
  "init halls =
     \<lparr>allocations = Map.empty,
      hall_seats = fold (\<lambda>h m. m(hall_code h \<mapsto> empty_grid h)) halls Map.empty\<rparr>"

section \<open>Floating-point arithmetic\<close>

text \<open>
  Python's \<^verbatim>\<open>float\<close> is the IEEE 754 binary64 format: true division of two integers,
  the conversion of an integer, and the product of two floats each return the
  representable number nearest to the exact result, ties going to the even significand.
  A float is modelled by the rational number it denotes, and \<open>fl\<close> rounds a rational to
  53 significant bits: \<open>expo x\<close> is the exponent \<open>e\<close> with \<open>2^e \<le> x < 2^(e+1)\<close>, the
  spacing of the floats around \<open>x\<close> is \<open>2^(e - 52)\<close>, and \<open>x\<close> goes to the nearest multiple
  of the spacing. Only non-negative numbers are rounded in the scripts. The exponent is
  not bounded here: overflow and subnormal numbers (beyond \<open>2^1023\<close>, below \<open>2^-1022\<close>)
  are out of reach of the counts of halls and students the scripts compute with.
\<close>

definition expo :: "rat \<Rightarrow> int" where
  "expo x =
     (let (p, q) = quotient_of x;
          e = bitlen p - bitlen q
      in if 2 powi e \<le> x then e else e - 1)"

definition round_half_even :: "rat \<Rightarrow> int" where
  "round_half_even y =
     (let f = \<lfloor>y\<rfloor>; d = y - of_int f
      in if d < 1 / 2 then f
         else if 1 / 2 < d then f + 1
         else if even f then f else f + 1)"

definition fl :: "rat \<Rightarrow> rat" where
  "fl x =
     (if x \<le> 0 then 0
      else let u = 2 powi (expo x - 52)
           in of_int (round_half_even (x / u)) * u)"

section \<open>Input validator\<close>

text \<open>\<^verbatim>\<open>validate_inputs\<close> is the same in the three scripts.\<close>

definition total_seats :: "hall list \<Rightarrow> nat" where
  "total_seats halls = sum_list (map (\<lambda>h. rows h * cols h) halls)"

text \<open>\<^verbatim>\<open>hall['total_capacity'] > expected_capacity\<close>\<close>

definition exceeds_grid :: "hall \<Rightarrow> bool" where
  "exceeds_grid h = (total_capacity h > int (rows h * cols h))"

definition validate_inputs :: "student list \<Rightarrow> hall list \<Rightarrow> error + unit" where
  "validate_inputs students halls =
     (if list_ex exceeds_grid halls then Inl CapacityError
      else if length students > total_seats halls then Inl CapacityError
      else Inr ())"

section \<open>Grid mapper\<close>

text \<open>\<^verbatim>\<open>self.hall_seats[hall_code][r][c] = reg\<close>, with Python's failures written out.\<close>

definition set_seat :: "string \<Rightarrow> nat \<Rightarrow> nat \<Rightarrow> string \<Rightarrow> allocator \<Rightarrow> allocator result" where
  "set_seat code r c reg st =
     (case hall_seats st code of
        None \<Rightarrow> Inl (KeyError, st)
      | Some g \<Rightarrow>
          if r < length g \<and> c < length (g ! r)
          then Inr (st\<lparr>hall_seats := (hall_seats st)(code \<mapsto> g[r := (g ! r)[c := Some reg]])\<rparr>)
          else Inl (IndexError, st))"

text \<open>The body of the innermost placement loop: write the grid cell, then the ledger
  entry with the 1-based coordinates.\<close>

definition place_student :: "hall \<Rightarrow> nat \<Rightarrow> nat \<Rightarrow> student \<Rightarrow> allocator \<Rightarrow> allocator result" where
  "place_student h r c s st =
     (case set_seat (hall_code h) r c (reg_no s) st of
        Inl e \<Rightarrow> Inl e
      | Inr st' \<Rightarrow>
          Inr (st'\<lparr>allocations := (allocations st')(reg_no s \<mapsto>
            \<lparr>a_hall_code = hall_code h, a_hall_name = hall_name h, a_block = block h,
             a_row = r + 1, a_col = c + 1, a_course_code = course_code s,
             a_course_title = course_title s, a_department = department s,
             a_date = date s\<rparr>)\<rparr>))"

text \<open>
  The inner loop \<^verbatim>\<open>for c in col_range\<close> over the columns of row \<open>r\<close>. The index
  \<^verbatim>\<open>idx\<close> into \<^verbatim>\<open>hall_students\<close> is kept as the list of students still to place;
  the loop breaks when none is left.
\<close>

fun place_row ::
  "hall \<Rightarrow> nat \<Rightarrow> nat list \<Rightarrow> student list \<Rightarrow> allocator \<Rightarrow> (student list \<times> allocator) result"
where
  "place_row h r [] ss st = Inr (ss, st)"
| "place_row h r (c # cs) [] st = Inr ([], st)"
| "place_row h r (c # cs) (s # ss) st =
     (case place_student h r c s st of
        Inl e \<Rightarrow> Inl e
      | Inr st' \<Rightarrow> place_row h r cs ss st')"

text \<open>
  The outer loop \<^verbatim>\<open>for r in range(rows)\<close>. \<open>colr r\<close> is the column order of row \<open>r\<close>.
  \<open>brk\<close> says whether the script has the outer \<^verbatim>\<open>if idx >= len(hall_students): break\<close>
  (the University script has it; Exam1 and the copy only break the inner loop).
\<close>

fun place_rows ::
  "bool \<Rightarrow> (nat \<Rightarrow> nat list) \<Rightarrow> hall \<Rightarrow> nat list \<Rightarrow> student list \<Rightarrow> allocator \<Rightarrow> allocator result"
where
  "place_rows brk colr h [] ss st = Inr st"
| "place_rows brk colr h (r # rs) ss st =
     (if brk \<and> ss = [] then Inr st
      else case place_row h r (colr r) ss st of
             Inl e \<Rightarrow> Inl e
           | Inr (ss', st') \<Rightarrow> place_rows brk colr h rs ss' st')"

text \<open>\<^verbatim>\<open>range(cols) if r % 2 == 0 else range(cols - 1, -1, -1)\<close>\<close>

definition col_range :: "nat \<Rightarrow> nat \<Rightarrow> nat list" where
  "col_range n r = (if r mod 2 = 0 then [0..<n] else rev [0..<n])"

text \<open>S-pattern placement of the University script and of its copy; row-wise placement
  of Exam1.\<close>

definition place_s_pattern :: "hall \<Rightarrow> student list \<Rightarrow> allocator \<Rightarrow> allocator result" where
  "place_s_pattern h ss st = place_rows True (col_range (cols h)) h [0..<rows h] ss st"

definition place_s_pattern_copy :: "hall \<Rightarrow> student list \<Rightarrow> allocator \<Rightarrow> allocator result" where
  "place_s_pattern_copy h ss st = place_rows False (col_range (cols h)) h [0..<rows h] ss st"

definition place_row_wise :: "hall \<Rightarrow> student list \<Rightarrow> allocator \<Rightarrow> allocator result" where
  "place_row_wise h ss st = place_rows False (\<lambda>r. [0..<cols h]) h [0..<rows h] ss st"

section \<open>Half-split allocation (University script)\<close>

subsection \<open>Hall selector\<close>

text \<open>\<^verbatim>\<open>required_capacity = ((total_students + 24) // 25) * 25\<close>\<close>

definition required_capacity :: "nat \<Rightarrow> nat" where
  "required_capacity total_students = ((total_students + 24) div 25) * 25"

text \<open>\<^verbatim>\<open>sorted(self.halls, key=lambda h: h['rows'] * h['cols'], reverse=True)\<close>: Python's
  sort is stable also with \<^verbatim>\<open>reverse=True\<close>, so halls of equal grid capacity keep their
  declared order; a stable ascending sort on the negated key does the same.\<close>

definition halls_by_capacity :: "hall list \<Rightarrow> hall list" where
  "halls_by_capacity halls = sort_key (\<lambda>h. - int (rows h * cols h)) halls"

text \<open>The accumulation loop: add the hall's grid capacity and its code, stop as soon as
  the required capacity is reached.\<close>

fun select_codes :: "nat \<Rightarrow> hall list \<Rightarrow> nat \<Rightarrow> string set \<Rightarrow> string set" where
  "select_codes req [] cap_acc selected_codes = selected_codes"
| "select_codes req (h # hs) cap_acc selected_codes =
     (let cap_acc' = cap_acc + rows h * cols h;
          selected_codes' = insert (hall_code h) selected_codes
      in if cap_acc' \<ge> req then selected_codes'
         else select_codes req hs cap_acc' selected_codes')"

text \<open>\<^verbatim>\<open>halls_to_use = [h for h in self.halls if h['hall_code'] in selected_codes]\<close>\<close>

definition halls_to_use :: "nat \<Rightarrow> hall list \<Rightarrow> hall list" where
  "halls_to_use total_students halls =
     (let selected_codes =
            select_codes (required_capacity total_students) (halls_by_capacity halls) 0 {}
      in filter (\<lambda>h. hall_code h \<in> selected_codes) halls)"

subsection \<open>Proportional distributor\<close>

text \<open>
  \<^verbatim>\<open>count = int((cap / total_capacity) * total_students) if total_capacity > 0 else 0\<close>.
  The quotient of the two integers is rounded to a float, the student count is converted
  to a float, their product is rounded again, and \<^verbatim>\<open>int\<close> truncates (the value is never
  negative, so truncation is the floor).
\<close>

definition share :: "nat \<Rightarrow> nat \<Rightarrow> nat \<Rightarrow> int" where
  "share cap total_cap total_students =
     (if total_cap > 0
      then \<lfloor>fl (fl (of_nat cap / of_nat total_cap) * fl (of_nat total_students))\<rfloor>
      else 0)"

text \<open>
  The dictionary \<^verbatim>\<open>students_per_hall\<close> is read with \<^verbatim>\<open>.get(hall_code, 0)\<close> and
  incremented only at keys the first loop has just written, so it is a function from hall
  codes to counts that is \<open>0\<close> where no key was written. The first loop also sums the
  counts in \<^verbatim>\<open>allocated_count\<close>.
\<close>

definition proportional_counts :: "hall list \<Rightarrow> nat \<Rightarrow> nat \<Rightarrow> (string \<Rightarrow> int) \<times> int" where
  "proportional_counts hs total_cap total_students =
     fold (\<lambda>h (m, allocated_count).
             let count = share (rows h * cols h) total_cap total_students
             in (m(hall_code h := count), allocated_count + count))
          hs (\<lambda>_. 0, 0)"

text \<open>The remainder loop: one more seat per hall, in declared order, while \<^verbatim>\<open>rem > 0\<close>.\<close>

fun distribute_remainder :: "hall list \<Rightarrow> int \<Rightarrow> (string \<Rightarrow> int) \<Rightarrow> (string \<Rightarrow> int)" where
  "distribute_remainder [] rem m = m"
| "distribute_remainder (h # hs) rem m =
     (if rem \<le> 0 then m
      else distribute_remainder hs (rem - 1) (m(hall_code h := m (hall_code h) + 1)))"

definition students_per_hall :: "hall list \<Rightarrow> nat \<Rightarrow> string \<Rightarrow> int" where
  "students_per_hall hs total_students =
     (let total_cap = total_seats hs;
          (m, allocated_count) = proportional_counts hs total_cap total_students
      in distribute_remainder hs (int total_students - allocated_count) m)"

subsection \<open>Alternating packer\<close>

text \<open>
  One iteration of the loop
  \<^verbatim>\<open>while len(hall_students) < usable and (first_half or second_half)\<close>:
  take one student from the first half, then one from the second, each only while the
  hall is below \<^verbatim>\<open>usable\<close>.
\<close>

definition take_turns ::
  "int \<Rightarrow> student list \<times> student list \<times> student list
       \<Rightarrow> student list \<times> student list \<times> student list" where
  "take_turns usable = (\<lambda>(hall_students, first_half, second_half).
     let (hs1, f1) =
           (if first_half \<noteq> [] \<and> int (length hall_students) < usable
            then (hall_students @ [hd first_half], tl first_half)
            else (hall_students, first_half));
         (hs2, s2) =
           (if second_half \<noteq> [] \<and> int (length hs1) < usable
            then (hs1 @ [hd second_half], tl second_half)
            else (hs1, second_half))
     in (hs2, f1, s2))"

definition more_turns :: "int \<Rightarrow> student list \<times> student list \<times> student list \<Rightarrow> bool" where
  "more_turns usable = (\<lambda>(hall_students, first_half, second_half).
     int (length hall_students) < usable \<and> (first_half \<noteq> [] \<or> second_half \<noteq> []))"

definition queued :: "student list \<times> student list \<times> student list \<Rightarrow> nat" where
  "queued = (\<lambda>(hall_students, first_half, second_half). length first_half + length second_half)"

lemma take_turns_decreases:
  "more_turns usable q \<Longrightarrow> queued (take_turns usable q) < queued q"
  by (cases q; cases "fst (snd q)"; cases "snd (snd q)")
     (auto simp: take_turns_def more_turns_def queued_def Let_def split: if_splits)

function alternate ::
  "int \<Rightarrow> student list \<times> student list \<times> student list
       \<Rightarrow> student list \<times> student list \<times> student list" where
  "alternate usable q = (if more_turns usable q then alternate usable (take_turns usable q) else q)"
  by pat_completeness auto
termination
  by (relation "measure (\<lambda>(usable, q). queued q)") (auto dest: take_turns_decreases)

declare alternate.simps [simp del]

subsection \<open>The run\<close>

text \<open>The body of \<^verbatim>\<open>for hall in halls_to_use\<close>: the two \<^verbatim>\<open>continue\<close>s leave the queues
  and the object as they are.\<close>

definition allocate_hall_university ::
  "(string \<Rightarrow> int) \<Rightarrow> hall \<Rightarrow> student list \<times> student list \<times> allocator
      \<Rightarrow> (student list \<times> student list \<times> allocator) result" where
  "allocate_hall_university sph h = (\<lambda>(first_half, second_half, st).
     let target = sph (hall_code h) in
     if target \<le> 0 then Inr (first_half, second_half, st)
     else
       let usable = min (int (rows h * cols h)) (min (total_capacity h) target);
           (hall_students, f', s') = alternate usable ([], first_half, second_half)
       in if hall_students = [] then Inr (f', s', st)
          else case place_s_pattern h hall_students st of
                 Inl e \<Rightarrow> Inl e
               | Inr st' \<Rightarrow> Inr (f', s', st'))"

fun halls_loop_university ::
  "(string \<Rightarrow> int) \<Rightarrow> hall list \<Rightarrow> student list \<times> student list \<times> allocator
      \<Rightarrow> (student list \<times> student list \<times> allocator) result" where
  "halls_loop_university sph [] q = Inr q"
| "halls_loop_university sph (h # hs) q =
     (case allocate_hall_university sph h q of
        Inl e \<Rightarrow> Inl e
      | Inr q' \<Rightarrow> halls_loop_university sph hs q')"

text \<open>\<^verbatim>\<open>allocate_seats\<close> of the University script, run on a freshly constructed object.\<close>

definition allocate_seats_university :: "student list \<Rightarrow> hall list \<Rightarrow> allocator result" where
  "allocate_seats_university students halls =
     (let st0 = init halls in
      case validate_inputs students halls of
        Inl e \<Rightarrow> Inl (e, st0)
      | Inr _ \<Rightarrow>
          let total_students = length students;
              htu = halls_to_use total_students halls
          in if total_seats htu < total_students then Inl (InsufficientCapacityError, st0)
             else
               let half = (total_students + 1) div 2;
                   first_half = take half students;
                   second_half = drop half students;
                   sph = students_per_hall htu total_students
               in (case halls_loop_university sph htu (first_half, second_half, st0) of
                     Inl e \<Rightarrow> Inl e
                   | Inr (f, s, st) \<Rightarrow>
                       let remaining = f @ s
                       in if remaining \<noteq> []
                          then Inl (UnallocatedStudentsError (length remaining), st)
                          else Inr st))"

section \<open>Round-robin allocation by course (Exam1 script)\<close>

subsection \<open>Course grouper\<close>

text \<open>\<^verbatim>\<open>sorted(self.students, key=lambda x: (x['course_code'], x['reg_no']))\<close>: a stable sort
  on pairs of strings, compared lexicographically.\<close>

definition students_sorted :: "student list \<Rightarrow> student list" where
  "students_sorted students = sort_key (\<lambda>x. (course_code x, reg_no x)) students"

text \<open>
  \<^verbatim>\<open>students_by_course\<close> is a \<^verbatim>\<open>defaultdict(list)\<close>: its keys in insertion order and a
  function from course codes to student lists that is \<open>[]\<close> where there is no key (the
  scripts test the lists for emptiness only, and \<^verbatim>\<open>.get\<close> of a missing key is as falsy as
  an empty list).
\<close>

definition group_by_course :: "student list \<Rightarrow> string list \<times> (string \<Rightarrow> student list)" where
  "group_by_course ss =
     fold (\<lambda>s (keys, m).
             let c = course_code s
             in (if c \<in> set keys then keys else keys @ [c], m(c := m c @ [s])))
          ss ([], \<lambda>_. [])"

text \<open>\<^verbatim>\<open>sorted(keys, key=lambda c: len(students_by_course[c]), reverse=True)\<close>\<close>

definition courses_by_size :: "string list \<times> (string \<Rightarrow> student list) \<Rightarrow> string list" where
  "courses_by_size = (\<lambda>(keys, m). sort_key (\<lambda>c. - int (length (m c))) keys)"

subsection \<open>Interleaved packer\<close>

text \<open>The loop that picks the courses of a hall: the first \<open>k\<close> courses, in size order,
  that still have students (\<open>k = 4\<close> in Exam1, \<open>2\<close> in the copy of the University script).\<close>

fun pick_courses ::
  "nat \<Rightarrow> (string \<Rightarrow> student list) \<Rightarrow> string list \<Rightarrow> string list \<Rightarrow> string list" where
  "pick_courses k remaining [] current_courses = current_courses"
| "pick_courses k remaining (course # cs) current_courses =
     (let current_courses' =
            (if remaining course \<noteq> [] then current_courses @ [course] else current_courses)
      in if length current_courses' = k then current_courses'
         else pick_courses k remaining cs current_courses')"

text \<open>\<^verbatim>\<open>any(remaining_courses[c] for c in current_courses)\<close>\<close>

definition any_remaining :: "(string \<Rightarrow> student list) \<Rightarrow> string list \<Rightarrow> bool" where
  "any_remaining remaining current_courses = list_ex (\<lambda>c. remaining c \<noteq> []) current_courses"

text \<open>The 2:1:1 loop, taken when exactly three courses are current. Its state is
  \<^verbatim>\<open>(hall_students, remaining_courses, idx)\<close>.\<close>

definition allocation_order :: "nat list" where
  "allocation_order = [0, 0, 1, 2]"

definition ratio_cond ::
  "int \<Rightarrow> string list \<Rightarrow> student list \<times> (string \<Rightarrow> student list) \<times> nat \<Rightarrow> bool" where
  "ratio_cond usable current_courses = (\<lambda>(hall_students, remaining, idx).
     int (length hall_students) < usable \<and> any_remaining remaining current_courses)"

definition ratio_step ::
  "string list \<Rightarrow> student list \<times> (string \<Rightarrow> student list) \<times> nat
      \<Rightarrow> student list \<times> (string \<Rightarrow> student list) \<times> nat" where
  "ratio_step current_courses = (\<lambda>(hall_students, remaining, idx).
     let course_idx = allocation_order ! (idx mod length allocation_order);
         course = current_courses ! course_idx
     in if remaining course \<noteq> []
        then (hall_students @ [hd (remaining course)],
              remaining(course := tl (remaining course)), idx + 1)
        else (hall_students, remaining, idx + 1))"

text \<open>The round-robin loop of the other cases: one pass of
  \<^verbatim>\<open>for course in current_courses\<close>, and the \<^verbatim>\<open>while\<close> around it. The state is
  \<^verbatim>\<open>(hall_students, remaining_courses)\<close>.\<close>

fun round_robin_pass ::
  "int \<Rightarrow> string list \<Rightarrow> student list \<times> (string \<Rightarrow> student list)
      \<Rightarrow> student list \<times> (string \<Rightarrow> student list)" where
  "round_robin_pass usable [] q = q"
| "round_robin_pass usable (course # cs) (hall_students, remaining) =
     (if remaining course \<noteq> [] \<and> int (length hall_students) < usable
      then round_robin_pass usable cs
             (hall_students @ [hd (remaining course)], remaining(course := tl (remaining course)))
      else round_robin_pass usable cs (hall_students, remaining))"

definition round_robin_cond ::
  "int \<Rightarrow> string list \<Rightarrow> student list \<times> (string \<Rightarrow> student list) \<Rightarrow> bool" where
  "round_robin_cond usable current_courses = (\<lambda>(hall_students, remaining).
     int (length hall_students) < usable \<and> any_remaining remaining current_courses)"

lemma round_robin_pass_mono:
  "length hs \<le> length (fst (round_robin_pass usable cs (hs, rem)))"
proof (induction cs arbitrary: hs rem)
  case Nil
  then show ?case by simp
next
  case (Cons c cs)
  show ?case
  proof (cases "rem c \<noteq> [] \<and> int (length hs) < usable")
    case True
    have "length (hs @ [hd (rem c)])
           \<le> length (fst (round_robin_pass usable cs (hs @ [hd (rem c)], rem(c := tl (rem c)))))"
      by (rule Cons.IH)
    with True show ?thesis by simp
  next
    case False
    with Cons.IH[of hs rem] show ?thesis by auto
  qed
qed

lemma round_robin_pass_progress:
  "int (length hs) < usable \<Longrightarrow> any_remaining rem cs \<Longrightarrow>
   length hs < length (fst (round_robin_pass usable cs (hs, rem)))"
proof (induction cs arbitrary: hs rem)
  case Nil
  then show ?case by (simp add: any_remaining_def)
next
  case (Cons c cs)
  show ?case
  proof (cases "rem c \<noteq> []")
    case True
    with Cons.prems round_robin_pass_mono[of "hs @ [hd (rem c)]" usable cs "rem(c := tl (rem c))"]
    show ?thesis by simp
  next
    case False
    with Cons.prems Cons.IH[of hs rem] show ?thesis by (simp add: any_remaining_def)
  qed
qed

text \<open>\<^verbatim>\<open>while len(hall_students) < usable_capacity and any(...)\<close> around the pass. Every
  pass seats at least one student, so the free capacity of the hall decreases.\<close>

function round_robin ::
  "int \<Rightarrow> string list \<Rightarrow> student list \<times> (string \<Rightarrow> student list)
      \<Rightarrow> student list \<times> (string \<Rightarrow> student list)" where
  "round_robin usable current_courses q =
     (if round_robin_cond usable current_courses q
      then round_robin usable current_courses (round_robin_pass usable current_courses q)
      else q)"
  by pat_completeness auto
termination
proof (relation "measure (\<lambda>(usable, cur, q). nat (usable - int (length (fst q))))", goal_cases)
  case 1
  show ?case by simp
next
  case (2 usable cur q)
  obtain hs rem where q: "q = (hs, rem)" by (cases q)
  from 2 q round_robin_pass_progress[of hs usable rem cur]
  show ?case by (simp add: round_robin_cond_def)
qed

declare round_robin.simps [simp del]

text \<open>
  The 2:1:1 loop runs only where \<^verbatim>\<open>len(current_courses) == 3\<close>, so its three courses are
  the parameters \<open>a\<close>, \<open>b\<close>, \<open>c\<close>. A step that finds the course of its turn empty seats
  nobody and only advances \<^verbatim>\<open>idx\<close>; \<open>steps_to_pop\<close> counts such steps up to the next turn
  of a course that has students.
\<close>

text \<open>The course whose turn it is at step \<open>idx\<close>.\<close>

definition turn :: "string list \<Rightarrow> nat \<Rightarrow> string" where
  "turn current_courses idx =
     current_courses ! (allocation_order ! (idx mod length allocation_order))"

lemma turn_simps:
  "idx mod 4 = 0 \<Longrightarrow> turn [a, b, c] idx = a"
  "idx mod 4 = 1 \<Longrightarrow> turn [a, b, c] idx = a"
  "idx mod 4 = 2 \<Longrightarrow> turn [a, b, c] idx = b"
  "idx mod 4 = 3 \<Longrightarrow> turn [a, b, c] idx = c"
  by (simp_all add: turn_def allocation_order_def)

fun steps_to_pop :: "(string \<Rightarrow> student list) \<Rightarrow> string list \<Rightarrow> nat \<Rightarrow> nat \<Rightarrow> nat" where
  "steps_to_pop remaining cur idx 0 = 0"
| "steps_to_pop remaining cur idx (Suc k) =
     (if remaining (turn cur idx) \<noteq> [] then 0
      else Suc (steps_to_pop remaining cur (idx + 1) k))"

definition ratio_measure ::
  "int \<Rightarrow> string list \<Rightarrow> student list \<times> (string \<Rightarrow> student list) \<times> nat \<Rightarrow> nat" where
  "ratio_measure usable cur = (\<lambda>(hall_students, remaining, idx).
     5 * nat (usable - int (length hall_students)) + steps_to_pop remaining cur idx 4)"

lemma steps_to_pop_le: "steps_to_pop rem cur idx k \<le> k"
  by (induction k arbitrary: idx) auto

lemma steps_to_pop_found:
  "j < k \<Longrightarrow> rem (turn cur (idx + j)) \<noteq> [] \<Longrightarrow>
   steps_to_pop rem cur idx (Suc k) = steps_to_pop rem cur idx k"
proof (induction k arbitrary: idx j)
  case 0
  then show ?case by simp
next
  case (Suc k)
  show ?case
  proof (cases j)
    case 0
    with Suc.prems show ?thesis by simp
  next
    case (Suc j')
    with Suc.prems have "steps_to_pop rem cur (idx + 1) (Suc k) = steps_to_pop rem cur (idx + 1) k"
      using Suc.IH[of j' "idx + 1"] by simp
    then show ?thesis by simp
  qed
qed

lemma next_turn_has_students:
  assumes "rem a \<noteq> [] \<or> rem b \<noteq> [] \<or> rem c \<noteq> []" and "rem (turn [a, b, c] idx) = []"
  shows "\<exists>j<3. rem (turn [a, b, c] (Suc idx + j)) \<noteq> []"
proof -
  have "idx mod 4 < 4" by simp
  then consider "idx mod 4 = 0" | "idx mod 4 = 1" | "idx mod 4 = 2" | "idx mod 4 = 3"
    by linarith
  then show ?thesis
  proof cases
    case 1
    then have "(Suc idx + 1) mod 4 = 2" "(Suc idx + 2) mod 4 = 3" by presburger+
    then have "turn [a, b, c] (Suc idx + 1) = b" "turn [a, b, c] (Suc idx + 2) = c"
      by (simp_all only: turn_simps)
    moreover from 1 assms have "rem b \<noteq> [] \<or> rem c \<noteq> []" by (simp add: turn_simps)
    ultimately show ?thesis by (metis lessI less_SucI numeral_3_eq_3 One_nat_def numeral_2_eq_2)
  next
    case 2
    then have "(Suc idx + 0) mod 4 = 2" "(Suc idx + 1) mod 4 = 3" by presburger+
    then have "turn [a, b, c] (Suc idx + 0) = b" "turn [a, b, c] (Suc idx + 1) = c"
      by (simp_all only: turn_simps)
    moreover from 2 assms have "rem b \<noteq> [] \<or> rem c \<noteq> []" by (simp add: turn_simps)
    ultimately show ?thesis by (metis lessI less_SucI numeral_3_eq_3 One_nat_def zero_less_Suc)
  next
    case 3
    then have "(Suc idx + 0) mod 4 = 3" "(Suc idx + 1) mod 4 = 0" by presburger+
    then have "turn [a, b, c] (Suc idx + 0) = c" "turn [a, b, c] (Suc idx + 1) = a"
      by (simp_all only: turn_simps)
    moreover from 3 assms have "rem c \<noteq> [] \<or> rem a \<noteq> []" by (auto simp add: turn_simps)
    ultimately show ?thesis by (metis lessI less_SucI numeral_3_eq_3 One_nat_def zero_less_Suc)
  next
    case 4
    then have "(Suc idx + 0) mod 4 = 0" "(Suc idx + 2) mod 4 = 2" by presburger+
    then have "turn [a, b, c] (Suc idx + 0) = a" "turn [a, b, c] (Suc idx + 2) = b"
      by (simp_all only: turn_simps)
    moreover from 4 assms have "rem a \<noteq> [] \<or> rem b \<noteq> []" by (auto simp add: turn_simps)
    ultimately show ?thesis by (metis lessI numeral_3_eq_3 numeral_2_eq_2 zero_less_Suc)
  qed
qed

lemma ratio_step_decreases:
  assumes "ratio_cond usable [a, b, c] q"
  shows "ratio_measure usable [a, b, c] (ratio_step [a, b, c] q) < ratio_measure usable [a, b, c] q"
proof -
  obtain hs rem idx where q: "q = (hs, rem, idx)" by (cases q)
  show ?thesis
  proof (cases "rem (turn [a, b, c] idx) \<noteq> []")
    case True
    define rem' where "rem' = rem(turn [a, b, c] idx := tl (rem (turn [a, b, c] idx)))"
    have le: "steps_to_pop rem' [a, b, c] (Suc idx) 4 \<le> 4" by (rule steps_to_pop_le)
    from assms q have lt: "int (length hs) < usable" by (simp add: ratio_cond_def)
    then have n: "nat (usable - int (length hs)) = Suc (nat (usable - (1 + int (length hs))))"
      by linarith
    from True q have "ratio_step [a, b, c] q = (hs @ [hd (rem (turn [a, b, c] idx))], rem', Suc idx)"
      by (simp add: ratio_step_def Let_def rem'_def turn_def)
    with le n q show ?thesis
      by (simp add: ratio_measure_def del: steps_to_pop.simps)
  next
    case False
    from assms q have "rem a \<noteq> [] \<or> rem b \<noteq> [] \<or> rem c \<noteq> []"
      by (simp add: ratio_cond_def any_remaining_def)
    with False obtain j where j: "j < 3" "rem (turn [a, b, c] (Suc idx + j)) \<noteq> []"
      using next_turn_has_students[of rem a b c idx] by blast
    then have "steps_to_pop rem [a, b, c] (Suc idx) (Suc 3) = steps_to_pop rem [a, b, c] (Suc idx) 3"
      by (rule steps_to_pop_found)
    moreover have "Suc 3 = (4::nat)" by simp
    ultimately have "steps_to_pop rem [a, b, c] (Suc idx) 4 = steps_to_pop rem [a, b, c] (Suc idx) 3"
      by (simp only:)
    moreover have "steps_to_pop rem [a, b, c] idx 4 = Suc (steps_to_pop rem [a, b, c] (Suc idx) 3)"
      using False by (simp add: numeral_eq_Suc)
    moreover from False q have "ratio_step [a, b, c] q = (hs, rem, Suc idx)"
      by (simp add: ratio_step_def Let_def turn_def)
    ultimately show ?thesis using q
      by (simp add: ratio_measure_def del: steps_to_pop.simps)
  qed
qed

function ratio_loop ::
  "int \<Rightarrow> string \<Rightarrow> string \<Rightarrow> string \<Rightarrow> student list \<times> (string \<Rightarrow> student list) \<times> nat
      \<Rightarrow> student list \<times> (string \<Rightarrow> student list) \<times> nat" where
  "ratio_loop usable a b c q =
     (if ratio_cond usable [a, b, c] q then ratio_loop usable a b c (ratio_step [a, b, c] q)
      else q)"
  by pat_completeness auto
termination
proof (relation "measure (\<lambda>(usable, a, b, c, q). ratio_measure usable [a, b, c] q)", goal_cases)
  case 1
  show ?case by simp
next
  case (2 usable a b c q)
  then show ?case using ratio_step_decreases[of usable a b c q] by simp
qed

declare ratio_loop.simps [simp del]


subsection \<open>Pre-placement sort\<close>

text \<open>
  \<^verbatim>\<open>digits = re.sub(r"\D", "", reg)\<close> keeps the decimal digits of the registration
  number; the key is \<^verbatim>\<open>(0, int(digits))\<close> when there are any and \<^verbatim>\<open>(1, reg)\<close> otherwise.
  Python compares the tuples componentwise, so a pair with tag \<open>0\<close> is never compared
  with one of tag \<open>1\<close> beyond the tag. The key is a triple (tag, number, string) under
  the lexicographic order, with the component the tag does not use held constant.
  Strings are byte strings here and the digits are the ASCII ones.
\<close>

definition is_digit :: "char \<Rightarrow> bool" where
  "is_digit ch = (ch \<in> set ''0123456789'')"

definition digit_value :: "char \<Rightarrow> nat" where
  "digit_value ch = of_char ch - 48"

definition int_of_digits :: "string \<Rightarrow> nat" where
  "int_of_digits digits = foldl (\<lambda>n ch. 10 * n + digit_value ch) 0 digits"

definition reg_key :: "string \<Rightarrow> nat \<times> nat \<times> string" where
  "reg_key reg =
     (let digits = filter is_digit reg
      in if digits \<noteq> [] then (0, int_of_digits digits, []) else (1, 0, reg))"

definition reg_sort_key :: "student \<Rightarrow> nat \<times> nat \<times> string" where
  "reg_sort_key s = reg_key (reg_no s)"

text \<open>\<^verbatim>\<open>_reg_sort_key2\<close>: the same key behind the course code.\<close>

definition reg_sort_key2 :: "student \<Rightarrow> string \<times> nat \<times> nat \<times> string" where
  "reg_sort_key2 s = (course_code s, reg_key (reg_no s))"

subsection \<open>First pass\<close>

text \<open>The body of \<^verbatim>\<open>for hall in self.halls\<close>. \<open>cbs\<close> is \<^verbatim>\<open>courses_by_size\<close>; the state is
  \<^verbatim>\<open>remaining_courses\<close> and the object.\<close>

definition first_pass_hall ::
  "string list \<Rightarrow> hall \<Rightarrow> (string \<Rightarrow> student list) \<times> allocator
      \<Rightarrow> ((string \<Rightarrow> student list) \<times> allocator) result" where
  "first_pass_hall cbs h = (\<lambda>(remaining, st).
     let usable_capacity = min (total_capacity h) (int (rows h * cols h));
         current_courses = pick_courses 4 remaining cbs []
     in if current_courses = [] then Inr (remaining, st)
        else
          let (hall_students, remaining') =
                (case current_courses of
                   [a, b, c] \<Rightarrow>
                     (case ratio_loop usable_capacity a b c ([], remaining, 0) of
                        (hs, rem', idx) \<Rightarrow> (hs, rem'))
                 | _ \<Rightarrow> round_robin usable_capacity current_courses ([], remaining));
              hall_students' = sort_key reg_sort_key hall_students
          in case place_row_wise h hall_students' st of
               Inl e \<Rightarrow> Inl e
             | Inr st' \<Rightarrow> Inr (remaining', st'))"

fun first_pass ::
  "string list \<Rightarrow> hall list \<Rightarrow> (string \<Rightarrow> student list) \<times> allocator
      \<Rightarrow> ((string \<Rightarrow> student list) \<times> allocator) result" where
  "first_pass cbs [] q = Inr q"
| "first_pass cbs (h # hs) q =
     (case first_pass_hall cbs h q of
        Inl e \<Rightarrow> Inl e
      | Inr q' \<Rightarrow> first_pass cbs hs q')"

subsection \<open>Second pass\<close>

text \<open>\<^verbatim>\<open>sum(1 for row in self.hall_seats[hall_code] for seat in row if seat is not None)\<close>\<close>

definition occupied :: "grid \<Rightarrow> nat" where
  "occupied g = length (filter (\<lambda>seat. seat \<noteq> None) (concat g))"

text \<open>The search for the next free seat: rows in order, columns in order, reading
  \<^verbatim>\<open>self.hall_seats[hall_code][row][col]\<close>; the result is the first cell that is
  \<^verbatim>\<open>None\<close>, if there is one.\<close>

fun find_seat_in_row :: "grid \<Rightarrow> nat \<Rightarrow> nat list \<Rightarrow> error + nat option" where
  "find_seat_in_row g row [] = Inr None"
| "find_seat_in_row g row (col # cs) =
     (if row < length g \<and> col < length (g ! row)
      then (if g ! row ! col = None then Inr (Some col) else find_seat_in_row g row cs)
      else Inl IndexError)"

fun find_seat :: "grid \<Rightarrow> nat list \<Rightarrow> nat list \<Rightarrow> error + (nat \<times> nat) option" where
  "find_seat g [] cs = Inr None"
| "find_seat g (row # rs) cs =
     (case find_seat_in_row g row cs of
        Inl e \<Rightarrow> Inl e
      | Inr (Some col) \<Rightarrow> Inr (Some (row, col))
      | Inr None \<Rightarrow> find_seat g rs cs)"

text \<open>One round of \<^verbatim>\<open>for _ in range(to_allocate)\<close> after the \<^verbatim>\<open>pop(0)\<close>: the student goes
  to the first free seat; when the search finds none, the student is seated nowhere.\<close>

definition seat_leftover :: "hall \<Rightarrow> student \<Rightarrow> allocator \<Rightarrow> allocator result" where
  "seat_leftover h s st =
     (case hall_seats st (hall_code h) of
        None \<Rightarrow> Inl (KeyError, st)
      | Some g \<Rightarrow>
          (case find_seat g [0..<rows h] [0..<cols h] of
             Inl e \<Rightarrow> Inl (e, st)
           | Inr None \<Rightarrow> Inr st
           | Inr (Some (row, col)) \<Rightarrow> place_student h row col s st))"

fun seat_leftovers ::
  "hall \<Rightarrow> nat \<Rightarrow> student list \<Rightarrow> allocator \<Rightarrow> (student list \<times> allocator) result" where
  "seat_leftovers h 0 unallocated_students st = Inr (unallocated_students, st)"
| "seat_leftovers h (Suc k) [] st = Inl (IndexError, st)"
| "seat_leftovers h (Suc k) (s # unallocated_students) st =
     (case seat_leftover h s st of
        Inl e \<Rightarrow> Inl e
      | Inr st' \<Rightarrow> seat_leftovers h k unallocated_students st')"

definition second_pass_hall ::
  "hall \<Rightarrow> student list \<times> allocator \<Rightarrow> (student list \<times> allocator) result" where
  "second_pass_hall h = (\<lambda>(unallocated_students, st).
     case hall_seats st (hall_code h) of
       None \<Rightarrow> Inl (KeyError, st)
     | Some g \<Rightarrow>
         let usable_capacity = min (total_capacity h) (int (rows h * cols h));
             allocated_count = occupied g;
             available_seats = usable_capacity - int allocated_count
         in if available_seats > 0 \<and> unallocated_students \<noteq> []
            then let to_allocate = min available_seats (int (length unallocated_students))
                 in seat_leftovers h (nat to_allocate) unallocated_students st
            else Inr (unallocated_students, st))"

fun second_pass ::
  "hall list \<Rightarrow> student list \<times> allocator \<Rightarrow> (student list \<times> allocator) result" where
  "second_pass [] q = Inr q"
| "second_pass (h # hs) q =
     (case second_pass_hall h q of
        Inl e \<Rightarrow> Inl e
      | Inr q' \<Rightarrow> second_pass hs q')"

subsection \<open>The run\<close>

text \<open>
  The two passes of \<^verbatim>\<open>allocate_seats\<close> of Exam1, run on a freshly constructed object:
  the result is \<^verbatim>\<open>remaining_courses\<close> as the first pass left it (the second pass works
  on the separate list \<^verbatim>\<open>unallocated_students\<close>), that list, and the object.
\<close>

definition passes_exam1 ::
  "student list \<Rightarrow> hall list
     \<Rightarrow> (string list \<times> (string \<Rightarrow> student list) \<times> student list \<times> allocator) result" where
  "passes_exam1 students halls =
     (let grouped = group_by_course (students_sorted students);
          cbs = courses_by_size grouped;
          remaining_courses = snd grouped
      in case first_pass cbs halls (remaining_courses, init halls) of
           Inl e \<Rightarrow> Inl e
         | Inr (remaining, st1) \<Rightarrow>
             let unallocated_students = concat (map remaining cbs)
             in if unallocated_students \<noteq> []
                then (case second_pass halls
                             (sort_key reg_sort_key2 unallocated_students, st1) of
                        Inl e \<Rightarrow> Inl e
                      | Inr (unallocated_students', st2) \<Rightarrow>
                          Inr (cbs, remaining, unallocated_students', st2))
                else Inr (cbs, remaining, unallocated_students, st1))"

text \<open>\<^verbatim>\<open>allocate_seats\<close> of Exam1: validation, the two passes, and the final check
  \<^verbatim>\<open>sum(len(studs) for studs in remaining_courses.values())\<close>.\<close>

definition allocate_seats_exam1 :: "student list \<Rightarrow> hall list \<Rightarrow> allocator result" where
  "allocate_seats_exam1 students halls =
     (case validate_inputs students halls of
        Inl e \<Rightarrow> Inl (e, init halls)
      | Inr _ \<Rightarrow>
          (case passes_exam1 students halls of
             Inl e \<Rightarrow> Inl e
           | Inr (cbs, remaining, unallocated_students, st) \<Rightarrow>
               let unallocated = sum_list (map (\<lambda>c. length (remaining c)) cbs)
               in if unallocated > 0 then Inl (UnallocatedStudentsError unallocated, st)
                  else Inr st))"

section \<open>Proportional round-robin allocation (copy of the University script)\<close>

subsection \<open>Window packer\<close>

text \<open>
  The packing loop of a hall keeps \<^verbatim>\<open>hall_students\<close>, \<^verbatim>\<open>remaining\<close>, the window
  \<^verbatim>\<open>current_courses\<close> and the queue \<^verbatim>\<open>future_courses\<close>.
\<close>

type_synonym window = "student list \<times> (string \<Rightarrow> student list) \<times> string list \<times> string list"

text \<open>
  One pass \<^verbatim>\<open>for course in list(current_courses)\<close> over a snapshot of the window: stop
  when the hall is full; seat the next student of the course; or, when the course is
  exhausted, admit the next future course (if any) and retire the exhausted one with
  \<^verbatim>\<open>current_courses.remove(course)\<close>, which removes the first occurrence (the course is
  in the window whenever the script reaches it).
\<close>

fun window_pass :: "int \<Rightarrow> string list \<Rightarrow> window \<Rightarrow> window" where
  "window_pass usable [] q = q"
| "window_pass usable (course # cs) (hall_students, remaining, current_courses, future_courses) =
     (if int (length hall_students) \<ge> usable
      then (hall_students, remaining, current_courses, future_courses)
      else if remaining course \<noteq> []
      then window_pass usable cs
             (hall_students @ [hd (remaining course)],
              remaining(course := tl (remaining course)), current_courses, future_courses)
      else (case future_courses of
              [] \<Rightarrow>
                window_pass usable cs
                  (hall_students, remaining, remove1 course current_courses, [])
            | next_course # fut \<Rightarrow>
                window_pass usable cs
                  (hall_students, remaining,
                   remove1 course (current_courses @ [next_course]), fut)))"

text \<open>
  The loop \<^verbatim>\<open>while len(hall_students) < usable_capacity\<close> with its closing
  \<^verbatim>\<open>if not current_courses: break\<close>: the flag \<open>stop\<close> records that the break was taken.
\<close>

definition window_cond :: "int \<Rightarrow> window \<times> bool \<Rightarrow> bool" where
  "window_cond usable = (\<lambda>((hall_students, remaining, current_courses, future_courses), stop).
     \<not> stop \<and> int (length hall_students) < usable)"

definition window_step :: "int \<Rightarrow> window \<times> bool \<Rightarrow> window \<times> bool" where
  "window_step usable = (\<lambda>(q, stop).
     let q' = window_pass usable (fst (snd (snd q))) q
     in (q', fst (snd (snd q')) = []))"

text \<open>Every step of a pass that is not the break seats a student or retires a course,
  so the students and courses still ahead of the window decrease.\<close>

definition backlog :: "window \<Rightarrow> nat" where
  "backlog = (\<lambda>(hall_students, remaining, current_courses, future_courses).
     sum_list (map (\<lambda>c. length (remaining c) + 1) (current_courses @ future_courses)))"

definition window_measure :: "window \<times> bool \<Rightarrow> nat" where
  "window_measure = (\<lambda>(q, stop). 2 * backlog q + (if stop then 0 else 1))"

lemma sum_list_pop_le:
  "sum_list (map (\<lambda>c. length ((rem(x := tl (rem x))) c) + 1) xs)
     \<le> sum_list (map (\<lambda>c. length (rem c) + 1) xs)"
  by (induction xs) auto

lemma sum_list_pop_less:
  "x \<in> set xs \<Longrightarrow> rem x \<noteq> [] \<Longrightarrow>
   sum_list (map (\<lambda>c. length ((rem(x := tl (rem x))) c) + 1) xs)
     < sum_list (map (\<lambda>c. length (rem c) + 1) xs)"
proof (induction xs)
  case Nil
  then show ?case by simp
next
  case (Cons y ys)
  show ?case
  proof (cases "y = x")
    case True
    with Cons.prems sum_list_pop_le[of rem x ys] show ?thesis
      by (cases "rem x") auto
  next
    case False
    with Cons show ?thesis by auto
  qed
qed

lemma window_pass_backlog:
  "mset cs \<subseteq># mset cur \<Longrightarrow>
   backlog (window_pass usable cs (hs, rem, cur, fut)) \<le> backlog (hs, rem, cur, fut) \<and>
   (cs \<noteq> [] \<longrightarrow> int (length hs) < usable \<longrightarrow>
      backlog (window_pass usable cs (hs, rem, cur, fut)) < backlog (hs, rem, cur, fut))"
proof (induction cs arbitrary: hs rem cur fut)
  case Nil
  then show ?case by simp
next
  case (Cons course cs)
  from Cons.prems have mem: "course \<in> set cur"
    by (metis mset_subset_eq_insertD set_mset_mset mset.simps(2))
  from Cons.prems have sub: "mset cs \<subseteq># mset cur - {#course#}"
    by (simp add: insert_subset_eq_iff)
  show ?case
  proof (cases "usable \<le> int (length hs)")
    case True
    then show ?thesis by simp
  next
    case full: False
    show ?thesis
    proof (cases "rem course \<noteq> []")
      case True
      from sub have "mset cs \<subseteq># mset cur"
        by (meson diff_subset_eq_self subset_mset.order_trans)
      then have "backlog (window_pass usable cs
                   (hs @ [hd (rem course)], rem(course := tl (rem course)), cur, fut))
              \<le> backlog (hs @ [hd (rem course)], rem(course := tl (rem course)), cur, fut)"
        by (rule Cons.IH[THEN conjunct1])
      moreover have "backlog (hs @ [hd (rem course)], rem(course := tl (rem course)), cur, fut)
                       < backlog (hs, rem, cur, fut)"
        using sum_list_pop_less[of course "cur @ fut" rem] mem True
        by (simp add: backlog_def)
      ultimately show ?thesis using True full by simp
    next
      case False
      show ?thesis
      proof (cases fut)
        case Nil
        have "mset cs \<subseteq># mset (remove1 course cur)" using sub by simp
        from Cons.IH[OF this, of hs rem "[]"]
        have "backlog (window_pass usable cs (hs, rem, remove1 course cur, []))
                \<le> backlog (hs, rem, remove1 course cur, [])" by simp
        moreover have "backlog (hs, rem, remove1 course cur, []) < backlog (hs, rem, cur, [])"
          using mem sum_list_map_remove1[of course cur "\<lambda>c. length (rem c) + 1"]
          by (simp add: backlog_def)
        ultimately show ?thesis using False full Nil by simp
      next
        case (Cons nxt fut')
        have "mset cur - {#course#} \<subseteq># add_mset nxt (mset cur - {#course#})"
          by simp
        with sub have "mset cs \<subseteq># add_mset nxt (mset cur - {#course#})"
          by (rule subset_mset.order_trans)
        with mem have "mset cs \<subseteq># mset (remove1 course (cur @ [nxt]))"
          by (simp add: remove1_append)
        from Cons.IH[OF this, of hs rem fut']
        have "backlog (window_pass usable cs (hs, rem, remove1 course (cur @ [nxt]), fut'))
                \<le> backlog (hs, rem, remove1 course (cur @ [nxt]), fut')" by simp
        moreover have "backlog (hs, rem, remove1 course (cur @ [nxt]), fut') < backlog (hs, rem, cur, nxt # fut')"
          using mem sum_list_map_remove1[of course cur "\<lambda>c. length (rem c) + 1"]
          by (simp add: backlog_def remove1_append)
        ultimately show ?thesis using False full Cons by simp
      qed
    qed
  qed
qed

lemma window_step_decreases:
  assumes "window_cond usable s"
  shows "window_measure (window_step usable s) < window_measure s"
proof -
  obtain hs rem cur fut stop where s: "s = ((hs, rem, cur, fut), stop)"
    by (metis surj_pair)
  from assms s have c: "\<not> stop" "int (length hs) < usable" by (simp_all add: window_cond_def)
  show ?thesis
  proof (cases "cur = []")
    case True
    with s c show ?thesis by (simp add: window_step_def window_measure_def)
  next
    case False
    with c window_pass_backlog[of cur cur usable hs rem fut]
    have "backlog (window_pass usable cur (hs, rem, cur, fut)) < backlog (hs, rem, cur, fut)"
      by simp
    with s c show ?thesis by (simp add: window_step_def window_measure_def Let_def)
  qed
qed

function window_loop :: "int \<Rightarrow> window \<times> bool \<Rightarrow> window \<times> bool" where
  "window_loop usable s =
     (if window_cond usable s then window_loop usable (window_step usable s) else s)"
  by pat_completeness auto
termination
proof (relation "measure (\<lambda>(usable, s). window_measure s)", goal_cases)
  case 1
  show ?case by simp
next
  case (2 usable s)
  then show ?case using window_step_decreases[of usable s] by simp
qed

declare window_loop.simps [simp del]


subsection \<open>Hall selection and targets\<close>

text \<open>\<^verbatim>\<open>required_blocks = ceil(total_students / 25) if total_students > 0 else 0\<close> and
  \<^verbatim>\<open>required_seats = required_blocks * 25\<close>; the quotient is a float.\<close>

definition required_seats :: "nat \<Rightarrow> nat" where
  "required_seats total_students =
     (if total_students > 0 then nat \<lceil>fl (of_nat total_students / 25)\<rceil> else 0) * 25"

text \<open>Halls are selected in the order given until their grid capacity reaches
  \<^verbatim>\<open>required_seats\<close>; the result is \<^verbatim>\<open>selected_halls\<close> and \<^verbatim>\<open>selected_capacity\<close>.\<close>

fun select_halls :: "nat \<Rightarrow> hall list \<Rightarrow> hall list \<Rightarrow> nat \<Rightarrow> hall list \<times> nat" where
  "select_halls req [] selected_halls selected_capacity = (selected_halls, selected_capacity)"
| "select_halls req (h # hs) selected_halls selected_capacity =
     (let selected_halls' = selected_halls @ [h];
          selected_capacity' = selected_capacity + rows h * cols h
      in if selected_capacity' \<ge> req then (selected_halls', selected_capacity')
         else select_halls req hs selected_halls' selected_capacity')"

text \<open>\<^verbatim>\<open>students_per_hall\<close> starts at \<open>0\<close> for every hall; the proportional counts and the
  remainder go to the selected halls only.\<close>

definition students_per_hall_copy :: "hall list \<Rightarrow> nat \<Rightarrow> nat \<Rightarrow> string \<Rightarrow> int" where
  "students_per_hall_copy selected_halls selected_capacity total_students =
     (if selected_capacity > 0 \<and> total_students > 0
      then (let (m, assigned_count) =
                  proportional_counts selected_halls selected_capacity total_students
            in distribute_remainder selected_halls (int total_students - assigned_count) m)
      else (\<lambda>_. 0))"

subsection \<open>The run\<close>

definition allocate_hall_copy ::
  "string list \<Rightarrow> (string \<Rightarrow> int) \<Rightarrow> hall \<Rightarrow> (string \<Rightarrow> student list) \<times> allocator
      \<Rightarrow> ((string \<Rightarrow> student list) \<times> allocator) result" where
  "allocate_hall_copy courses_sorted sph h = (\<lambda>(remaining, st).
     let target = sph (hall_code h) in
     if target \<le> 0 then Inr (remaining, st)
     else
       let usable_capacity = min (int (rows h * cols h)) (min (total_capacity h) target);
           current_courses = pick_courses 2 remaining courses_sorted [];
           future_courses = filter (\<lambda>c. c \<notin> set current_courses) courses_sorted;
           (hall_students, remaining') =
             (case window_loop usable_capacity
                     (([], remaining, current_courses, future_courses), False) of
                ((hs, rem', cur', fut'), stop) \<Rightarrow> (hs, rem'))
       in case place_s_pattern_copy h hall_students st of
            Inl e \<Rightarrow> Inl e
          | Inr st' \<Rightarrow> Inr (remaining', st'))"

fun halls_loop_copy ::
  "string list \<Rightarrow> (string \<Rightarrow> int) \<Rightarrow> hall list \<Rightarrow> (string \<Rightarrow> student list) \<times> allocator
      \<Rightarrow> ((string \<Rightarrow> student list) \<times> allocator) result" where
  "halls_loop_copy courses_sorted sph [] q = Inr q"
| "halls_loop_copy courses_sorted sph (h # hs) q =
     (case allocate_hall_copy courses_sorted sph h q of
        Inl e \<Rightarrow> Inl e
      | Inr q' \<Rightarrow> halls_loop_copy courses_sorted sph hs q')"

text \<open>\<^verbatim>\<open>allocate_seats\<close> of the copy, run on a freshly constructed object.\<close>

definition allocate_seats_copy :: "student list \<Rightarrow> hall list \<Rightarrow> allocator result" where
  "allocate_seats_copy students halls =
     (case validate_inputs students halls of
        Inl e \<Rightarrow> Inl (e, init halls)
      | Inr _ \<Rightarrow>
          let grouped = group_by_course (students_sorted students);
              courses_sorted = courses_by_size grouped;
              total_students = length students;
              (selected_halls, selected_capacity) =
                select_halls (required_seats total_students) halls [] 0;
              sph = students_per_hall_copy selected_halls selected_capacity total_students
          in (case halls_loop_copy courses_sorted sph halls (snd grouped, init halls) of
                Inl e \<Rightarrow> Inl e
              | Inr (remaining, st) \<Rightarrow>
                  let unallocated = sum_list (map (\<lambda>c. length (remaining c)) courses_sorted)
                  in if unallocated > 0 then Inl (UnallocatedStudentsError unallocated, st)
                     else Inr st))"

section \<open>Observing a run\<close>

text \<open>The error a run raised, if any, and the object as the run left it.\<close>

definition raised :: "'a result \<Rightarrow> error option" where
  "raised r = (case r of Inl (e, st) \<Rightarrow> Some e | Inr x \<Rightarrow> None)"

definition final_state :: "allocator result \<Rightarrow> allocator" where
  "final_state r = (case r of Inl (e, st) \<Rightarrow> st | Inr st \<Rightarrow> st)"

text \<open>The seat a ledger entry names: hall code, 1-based row and column.\<close>

definition seat_of :: "assignment \<Rightarrow> string \<times> nat \<times> nat" where
  "seat_of e = (a_hall_code e, a_row e, a_col e)"

text \<open>Reading \<^verbatim>\<open>self.hall_seats[code][r][c]\<close> with 0-based indices: \<open>None\<close> for an empty
  seat, and also where the hall code or the cell does not exist.\<close>

definition cell :: "allocator \<Rightarrow> string \<Rightarrow> nat \<Rightarrow> nat \<Rightarrow> string option" where
  "cell st code r c =
     (case hall_seats st code of
        None \<Rightarrow> None
      | Some g \<Rightarrow> if r < length g \<and> c < length (g ! r) then g ! r ! c else None)"

text \<open>The occupied cells of the grid stored under a hall code, and their total over all
  grids of \<^verbatim>\<open>hall_seats\<close> (one grid per hall code).\<close>

definition hall_occupied :: "allocator \<Rightarrow> string \<Rightarrow> nat" where
  "hall_occupied st code = (case hall_seats st code of None \<Rightarrow> 0 | Some g \<Rightarrow> occupied g)"

definition occupied_cells :: "hall list \<Rightarrow> allocator \<Rightarrow> nat" where
  "occupied_cells halls st = sum_list (map (hall_occupied st) (remdups (map hall_code halls)))"

text \<open>
  Ledger and grids agree: every ledger entry names, with 1-based coordinates, a cell that
  holds the entry's student, and every occupied cell holds a student whose ledger entry
  names that cell.
\<close>

definition consistent :: "allocator \<Rightarrow> bool" where
  "consistent st =
     ((\<forall>reg e. allocations st reg = Some e \<longrightarrow>
          1 \<le> a_row e \<and> 1 \<le> a_col e
          \<and> cell st (a_hall_code e) (a_row e - 1) (a_col e - 1) = Some reg)
      \<and> (\<forall>code r c reg. cell st code r c = Some reg \<longrightarrow>
            map_option seat_of (allocations st reg) = Some (code, r + 1, c + 1)))"

section \<open>Inputs used in the examples\<close>

definition stu :: "string \<Rightarrow> string \<Rightarrow> student" where
  "stu reg course =
     \<lparr>reg_no = reg, department = ''CSE'', course_code = course, course_title = ''Title'',
      date = None\<rparr>"

definition room :: "string \<Rightarrow> nat \<Rightarrow> nat \<Rightarrow> int \<Rightarrow> hall" where
  "room code r c cap =
     \<lparr>hall_code = code, hall_name = ''Hall'', block = ''Main'', rows = r, cols = c,
      total_capacity = cap\<rparr>"

definition five_courses :: "student list" where
  "five_courses =
     [stu ''1'' ''C1'', stu ''2'' ''C2'', stu ''3'' ''C3'', stu ''4'' ''C4'', stu ''5'' ''C5'']"

definition twins :: "student list" where
  "twins = [stu ''1'' ''C1'', stu ''2'' ''C1'']"

definition same_code_halls :: "hall list" where
  "same_code_halls = [room ''A'' 1 1 1, room ''A'' 1 1 1]"

definition one_course :: "string \<Rightarrow> student list" where
  "one_course c = (if c = ''C1'' then [stu ''1'' ''C1'', stu ''2'' ''C1''] else [])"



section \<open>Notions of the specification\<close>

text \<open>The total of the usable seats, \<open>min(declared_capacity, rows*cols)\<close> summed over the
  halls, as the validator contract of the specification words it.\<close>

definition total_usable_seats :: "hall list \<Rightarrow> int" where
  "total_usable_seats halls = sum_list (map usable_capacity halls)"


section \<open>Notions used in the proofs\<close>

text \<open>A hall's grid in the object has the hall's dimensions.\<close>

definition grid_ok :: "hall \<Rightarrow> allocator \<Rightarrow> bool" where
  "grid_ok h st =
     (case hall_seats st (hall_code h) of
        None \<Rightarrow> False
      | Some g \<Rightarrow> length g = rows h \<and> list_all (\<lambda>row. length row = cols h) g)"

text \<open>The ledger entry that \<^const>\<open>place_student\<close> writes, and the object after a placement
  that raised nothing.\<close>

definition entry :: "hall \<Rightarrow> nat \<Rightarrow> nat \<Rightarrow> student \<Rightarrow> assignment" where
  "entry h r c s =
     \<lparr>a_hall_code = hall_code h, a_hall_name = hall_name h, a_block = block h,
      a_row = r + 1, a_col = c + 1, a_course_code = course_code s,
      a_course_title = course_title s, a_department = department s, a_date = date s\<rparr>"

definition write_seat :: "hall \<Rightarrow> (nat \<times> nat) \<times> student \<Rightarrow> allocator \<Rightarrow> allocator" where
  "write_seat h = (\<lambda>((r, c), s) st.
     st\<lparr>hall_seats := (hall_seats st)(hall_code h \<mapsto>
           (let g = the (hall_seats st (hall_code h)) in g[r := (g ! r)[c := Some (reg_no s)]])),
        allocations := (allocations st)(reg_no s \<mapsto> entry h r c s)\<rparr>)"

definition write_all :: "hall \<Rightarrow> ((nat \<times> nat) \<times> student) list \<Rightarrow> allocator \<Rightarrow> allocator" where
  "write_all h zs st = fold (write_seat h) zs st"

text \<open>The cells in the order the placement loops visit them.\<close>

definition seat_cells :: "(nat \<Rightarrow> nat list) \<Rightarrow> nat list \<Rightarrow> (nat \<times> nat) list" where
  "seat_cells colr rs = concat (map (\<lambda>r. map (Pair r) (colr r)) rs)"

definition in_hall :: "hall \<Rightarrow> ((nat \<times> nat) \<times> student) list \<Rightarrow> bool" where
  "in_hall h zs = (\<forall>z\<in>set zs. fst (fst z) < rows h \<and> snd (fst z) < cols h)"

text \<open>Every row's column order visits each column of the hall once.\<close>

definition good_cols :: "hall \<Rightarrow> (nat \<Rightarrow> nat list) \<Rightarrow> bool" where
  "good_cols h colr = (\<forall>r. distinct (colr r) \<and> set (colr r) = {..<cols h})"

text \<open>No seat of the hall is taken.\<close>

definition hall_empty :: "hall \<Rightarrow> allocator \<Rightarrow> bool" where
  "hall_empty h st = (\<forall>r c. cell st (hall_code h) r c = None)"

text \<open>
  The state of a run between two halls: every hall of the input has a grid of its
  dimensions, the halls still to come are empty, ledger and grids agree, and the students
  still queued are distinct, not in the ledger, and together with the ledger make up
  the registration numbers \<open>R\<close> and the count \<open>n\<close>.
\<close>

definition run_inv ::
  "nat \<Rightarrow> string set \<Rightarrow> hall list \<Rightarrow> hall list \<Rightarrow> student list \<Rightarrow> allocator \<Rightarrow> bool" where
  "run_inv n R H hs queue st =
     ((\<forall>h\<in>set H. grid_ok h st) \<and> (\<forall>h\<in>set hs. hall_empty h st) \<and> consistent st
      \<and> distinct (map reg_no queue)
      \<and> (\<forall>x\<in>set queue. allocations st (reg_no x) = None)
      \<and> dom (allocations st) \<union> reg_no ` set queue = R
      \<and> occupied_cells H st + length queue = n)"

text \<open>The students in the three lists of the alternating packer.\<close>

definition pool3 :: "student list \<times> student list \<times> student list \<Rightarrow> student multiset" where
  "pool3 = (\<lambda>(hall_students, first_half, second_half).
     mset hall_students + mset first_half + mset second_half)"

text \<open>The students still to seat in Exam1: those of the courses \<open>K\<close> in
  \<^verbatim>\<open>remaining_courses\<close>; and the students in a state of its packing loops.\<close>

definition pool :: "string list \<Rightarrow> (string \<Rightarrow> student list) \<Rightarrow> student list" where
  "pool K remaining = concat (map remaining K)"

definition packed :: "string list \<Rightarrow> student list \<times> (string \<Rightarrow> student list) \<Rightarrow> student multiset" where
  "packed K = (\<lambda>(hall_students, remaining). mset hall_students + mset (pool K remaining))"

definition packed3 ::
  "string list \<Rightarrow> student list \<times> (string \<Rightarrow> student list) \<times> nat \<Rightarrow> student multiset" where
  "packed3 K = (\<lambda>(hall_students, remaining, idx). mset hall_students + mset (pool K remaining))"

text \<open>One round of the grouping loop, and the shape of its state: distinct keys, and
  no students outside the keys.\<close>

definition group_step ::
  "student \<Rightarrow> string list \<times> (string \<Rightarrow> student list) \<Rightarrow> string list \<times> (string \<Rightarrow> student list)" where
  "group_step = (\<lambda>s (keys, m).
     let c = course_code s
     in (if c \<in> set keys then keys else keys @ [c], m(c := m c @ [s])))"

definition grouped_ok :: "string list \<times> (string \<Rightarrow> student list) \<Rightarrow> bool" where
  "grouped_ok = (\<lambda>(keys, m). distinct keys \<and> (\<forall>c. c \<notin> set keys \<longrightarrow> m c = []))"

text \<open>The packing step of a hall in Exam1, as \<^const>\<open>first_pass_hall\<close> has it.\<close>

definition pack_exam1 ::
  "int \<Rightarrow> string list \<Rightarrow> (string \<Rightarrow> student list) \<Rightarrow> student list \<times> (string \<Rightarrow> student list)" where
  "pack_exam1 usable current_courses remaining =
     (case current_courses of
        [a, b, c] \<Rightarrow>
          (case ratio_loop usable a b c ([], remaining, 0) of (hs, rem', idx) \<Rightarrow> (hs, rem'))
      | _ \<Rightarrow> round_robin usable current_courses ([], remaining))"


text \<open>The registration numbers in the grid stored under a hall code follow the sort key
  in row-major order; and the state of the first pass of Exam1 between two halls: grids
  of the right dimensions, the halls still to come empty, every grid in key order.\<close>

definition key_ordered :: "allocator \<Rightarrow> string \<Rightarrow> bool" where
  "key_ordered st code =
     (\<forall>r1 c1 r2 c2 x1 x2.
        cell st code r1 c1 = Some x1 \<longrightarrow> cell st code r2 c2 = Some x2 \<longrightarrow>
        (r1 < r2 \<or> (r1 = r2 \<and> c1 \<le> c2)) \<longrightarrow> reg_key x1 \<le> reg_key x2)"


section \<open>Input validator: properties\<close>

lemma init_allocations: "allocations (init halls) = Map.empty"
  by (simp add: init_def)

lemma occupied_empty_grid: "occupied (empty_grid h) = 0"
  by (auto simp: occupied_def empty_grid_def filter_empty_conv)

lemma fold_grids_ran:
  "(\<And>code g. m code = Some g \<Longrightarrow> occupied g = 0) \<Longrightarrow>
   fold (\<lambda>h m. m(hall_code h \<mapsto> empty_grid h)) halls m code = Some g \<Longrightarrow> occupied g = 0"
proof (induction halls arbitrary: m)
  case Nil
  then show ?case by simp
next
  case (Cons h hs)
  show ?case
  proof (rule Cons.IH[of "m(hall_code h \<mapsto> empty_grid h)"])
    fix code' g'
    assume "(m(hall_code h \<mapsto> empty_grid h)) code' = Some g'"
    then show "occupied g' = 0"
      using Cons.prems(1) occupied_empty_grid by (auto split: if_splits)
  next
    from Cons.prems(2) show "fold (\<lambda>h m. m(hall_code h \<mapsto> empty_grid h)) hs (m(hall_code h \<mapsto> empty_grid h)) code = Some g"
      by (simp del: fun_upd_apply)
  qed
qed

lemma init_grids_empty: "hall_seats (init halls) code = Some g \<Longrightarrow> occupied g = 0"
  using fold_grids_ran[of Map.empty halls code g] by (simp add: init_def)

text \<open>
  Claim C3, as the code has it: \<^verbatim>\<open>validate_inputs\<close> raises exactly when some hall's
  declared capacity exceeds its grid size \<open>rows * cols\<close> or the students outnumber the
  grid seats \<open>\<Sum> rows * cols\<close> of all halls. Every script calls it first, so the run
  then fails with the same error on the object as \<^verbatim>\<open>__init__\<close> left it: an empty ledger
  and grids without an occupied cell.
\<close>

theorem validator_capacity_error:
  "(validate_inputs students halls = Inl CapacityError
      \<longleftrightarrow> list_ex exceeds_grid halls \<or> total_seats halls < length students)
   \<and> (\<forall>e. validate_inputs students halls = Inl e \<longrightarrow>
          allocate_seats_exam1 students halls = Inl (e, init halls)
        \<and> allocate_seats_university students halls = Inl (e, init halls)
        \<and> allocate_seats_copy students halls = Inl (e, init halls)
        \<and> allocations (init halls) = Map.empty
        \<and> (\<forall>code g. hall_seats (init halls) code = Some g \<longrightarrow> occupied g = 0))"
  by (auto simp: validate_inputs_def allocate_seats_exam1_def allocate_seats_university_def allocate_seats_copy_def
        init_allocations Let_def dest: init_grids_empty)

theorem validator_capacity_error_witness:
  "validate_inputs [stu ''1'' ''c''] [room ''A'' 2 2 5] = Inl CapacityError
   \<and> list_ex exceeds_grid [room ''A'' 2 2 5]
   \<and> allocate_seats_exam1 [stu ''1'' ''c''] [room ''A'' 2 2 5]
        = Inl (CapacityError, init [room ''A'' 2 2 5])
   \<and> allocate_seats_university [stu ''1'' ''c''] [room ''A'' 2 2 5]
        = Inl (CapacityError, init [room ''A'' 2 2 5])"
proof -
  have ex: "list_ex exceeds_grid [room ''A'' 2 2 5]"
    by (simp add: exceeds_grid_def room_def)
  with validator_capacity_error[of "[stu ''1'' ''c'']" "[room ''A'' 2 2 5]"]
  show ?thesis by blast
qed

text \<open>
  Claim C3 as stated compares the students with the usable seats
  \<open>\<Sum> min(declared_capacity, rows * cols)\<close>. Two students and one 2 x 2 hall of declared
  capacity 1: no hall exceeds its grid and only one seat is usable, yet the validator
  accepts the input.
\<close>

theorem validator_usable_seats_counterexample:
  "validate_inputs [stu ''1'' ''c'', stu ''2'' ''c''] [room ''A'' 2 2 1] = Inr ()
   \<and> total_usable_seats [room ''A'' 2 2 1] < int (length [stu ''1'' ''c'', stu ''2'' ''c''])"
  by (simp add: validate_inputs_def exceeds_grid_def total_seats_def total_usable_seats_def
        usable_capacity_def room_def)

section \<open>Grid mapper: properties\<close>

text \<open>
  Claim C7: a hall of 3 rows and 4 columns and twelve students \<open>s0 .. s11\<close> in packing
  order. The S-pattern placement fills row 0 left to right with \<open>s0 .. s3\<close>, row 1 right
  to left with \<open>s4 .. s7\<close> (so it reads \<open>s7, s6, s5, s4\<close>), and row 2 left to right
  with \<open>s8 .. s11\<close>.
\<close>

theorem serpentine_3x4:
  "\<exists>st. place_s_pattern
          \<lparr>hall_code = code, hall_name = name, block = blk, rows = 3, cols = 4,
           total_capacity = cap\<rparr>
          [s0, s1, s2, s3, s4, s5, s6, s7, s8, s9, s10, s11]
          (init [\<lparr>hall_code = code, hall_name = name, block = blk, rows = 3, cols = 4,
                  total_capacity = cap\<rparr>]) = Inr st
      \<and> hall_seats st code =
          Some [[Some (reg_no s0), Some (reg_no s1), Some (reg_no s2), Some (reg_no s3)],
                [Some (reg_no s7), Some (reg_no s6), Some (reg_no s5), Some (reg_no s4)],
                [Some (reg_no s8), Some (reg_no s9), Some (reg_no s10), Some (reg_no s11)]]"
  by (simp add: place_s_pattern_def init_def empty_grid_def col_range_def place_student_def
        set_seat_def upt_rec[of _ "numeral _"] upt_rec[of _ "Suc _"] eval_nat_numeral)

section \<open>Packing loops: termination\<close>

text \<open>Each \<^verbatim>\<open>while\<close> loop of the packers, run as a while-program from any state, stops,
  and stops in the state the model's loop function returns.\<close>

lemma window_loop_while:
  "while_option (window_cond usable) (window_step usable) s = Some (window_loop usable s)"
proof (induction usable s rule: window_loop.induct)
  case (1 usable s)
  show ?case
  proof (cases "window_cond usable s")
    case True
    have "while_option (window_cond usable) (window_step usable) s
            = while_option (window_cond usable) (window_step usable) (window_step usable s)"
      using True by (subst while_option_unfold) simp
    also have "\<dots> = Some (window_loop usable (window_step usable s))"
      using 1 True by simp
    also have "window_loop usable (window_step usable s) = window_loop usable s"
      using True by (subst (2) window_loop.simps) simp
    finally show ?thesis .
  next
    case False
    then show ?thesis
      by (subst while_option_unfold, subst window_loop.simps) simp
  qed
qed

lemma ratio_loop_while:
  "while_option (ratio_cond usable [a, b, c]) (ratio_step [a, b, c]) q
     = Some (ratio_loop usable a b c q)"
proof (induction usable a b c q rule: ratio_loop.induct)
  case (1 usable a b c q)
  show ?case
  proof (cases "ratio_cond usable [a, b, c] q")
    case True
    have "while_option (ratio_cond usable [a, b, c]) (ratio_step [a, b, c]) q
            = while_option (ratio_cond usable [a, b, c]) (ratio_step [a, b, c])
                (ratio_step [a, b, c] q)"
      using True by (subst while_option_unfold) simp
    also have "\<dots> = Some (ratio_loop usable a b c (ratio_step [a, b, c] q))"
      using 1 True by simp
    also have "ratio_loop usable a b c (ratio_step [a, b, c] q) = ratio_loop usable a b c q"
      using True by (subst (2) ratio_loop.simps) simp
    finally show ?thesis .
  next
    case False
    then show ?thesis
      by (subst while_option_unfold, subst ratio_loop.simps) simp
  qed
qed

lemma round_robin_while:
  "while_option (round_robin_cond usable cur) (round_robin_pass usable cur) q
     = Some (round_robin usable cur q)"
proof (induction usable cur q rule: round_robin.induct)
  case (1 usable cur q)
  show ?case
  proof (cases "round_robin_cond usable cur q")
    case True
    have "while_option (round_robin_cond usable cur) (round_robin_pass usable cur) q
            = while_option (round_robin_cond usable cur) (round_robin_pass usable cur)
                (round_robin_pass usable cur q)"
      using True by (subst while_option_unfold) simp
    also have "\<dots> = Some (round_robin usable cur (round_robin_pass usable cur q))"
      using 1 True by simp
    also have "round_robin usable cur (round_robin_pass usable cur q) = round_robin usable cur q"
      using True by (subst (2) round_robin.simps) simp
    finally show ?thesis .
  next
    case False
    then show ?thesis
      by (subst while_option_unfold, subst round_robin.simps) simp
  qed
qed

lemma alternate_while:
  "while_option (more_turns usable) (take_turns usable) q = Some (alternate usable q)"
proof (induction usable q rule: alternate.induct)
  case (1 usable q)
  show ?case
  proof (cases "more_turns usable q")
    case True
    have "while_option (more_turns usable) (take_turns usable) q
            = while_option (more_turns usable) (take_turns usable) (take_turns usable q)"
      using True by (subst while_option_unfold) simp
    also have "\<dots> = Some (alternate usable (take_turns usable q))"
      using 1 True by simp
    also have "alternate usable (take_turns usable q) = alternate usable q"
      using True by (subst (2) alternate.simps) simp
    finally show ?thesis .
  next
    case False
    then show ?thesis
      by (subst while_option_unfold, subst alternate.simps) simp
  qed
qed

text \<open>
  Claim C9: the packing loops terminate from every state: the window loop of the copy
  (with its branch that retires an exhausted course and admits the next one), the
  2:1:1 loop and the round-robin loop of Exam1, and the alternating loop of the
  University script. All other loops of \<^verbatim>\<open>allocate_seats\<close> are \<^verbatim>\<open>for\<close> loops over
  finite lists, structural recursions here, so every run ends, with a result or an error.
\<close>

theorem packing_loops_terminate:
  "while_option (window_cond usable) (window_step usable) w = Some (window_loop usable w)
   \<and> while_option (ratio_cond usable [a, b, c]) (ratio_step [a, b, c]) q
       = Some (ratio_loop usable a b c q)
   \<and> while_option (round_robin_cond usable cur) (round_robin_pass usable cur) r
       = Some (round_robin usable cur r)
   \<and> while_option (more_turns usable) (take_turns usable) t = Some (alternate usable t)"
  by (simp only: window_loop_while ratio_loop_while round_robin_while alternate_while simp_thms)

text \<open>The four loops at concrete states: two students of one course, a hall of usable
  capacity 1.\<close>

theorem packing_loops_terminate_witness:
  "while_option (window_cond 1) (window_step 1) (([], one_course, [''C1''], []), False)
     = Some (window_loop 1 (([], one_course, [''C1''], []), False))
   \<and> while_option (ratio_cond 1 [''C1'', ''C2'', ''C3'']) (ratio_step [''C1'', ''C2'', ''C3''])
        ([], one_course, 0)
       = Some (ratio_loop 1 ''C1'' ''C2'' ''C3'' ([], one_course, 0))
   \<and> while_option (round_robin_cond 1 [''C1'']) (round_robin_pass 1 [''C1'']) ([], one_course)
       = Some (round_robin 1 [''C1''] ([], one_course))
   \<and> while_option (more_turns 1) (take_turns 1) ([], twins, [])
       = Some (alternate 1 ([], twins, []))"
  by (rule packing_loops_terminate)

section \<open>Exam1: the final check\<close>

text \<open>
  Claim C2 at five students of five courses and one 3 x 3 hall of declared capacity 9.
  The first pass packs the hall from the four largest courses and seats their four
  students; the second pass seats the fifth student at row 2, column 2 of the same hall.
  The final check sums \<^verbatim>\<open>remaining_courses\<close>, which the second pass never updates, and
  raises for one unallocated student although all five are seated.
\<close>

theorem exam1_raises_after_seating_everyone:
  "raised (allocate_seats_exam1 five_courses [room ''A'' 3 3 9])
     = Some (UnallocatedStudentsError 1)
   \<and> hall_seats (final_state (allocate_seats_exam1 five_courses [room ''A'' 3 3 9])) ''A''
     = Some [[Some ''1'', Some ''2'', Some ''3''],
             [Some ''4'', Some ''5'', None],
             [None, None, None]]
   \<and> map_option seat_of
       (allocations (final_state (allocate_seats_exam1 five_courses [room ''A'' 3 3 9])) ''5'')
     = Some (''A'', 2, 2)"
  by code_simp

section \<open>Placement and the run invariant\<close>

lemma write_all_simps [simp]:
  "write_all h [] st = st"
  "write_all h (z # zs) st = write_all h zs (write_seat h z st)"
  "write_all h (zs @ zs') st = write_all h zs' (write_all h zs st)"
  by (simp_all add: write_all_def)

lemma length_nth_update2:
  "length ((g[r := (g ! r)[c := x]]) ! n) = length (g ! n)"
  by (cases "r < length g"; cases "n = r") (simp_all add: list_update_beyond)

lemma grid_ok_write_seat: "grid_ok h' st \<Longrightarrow> grid_ok h' (write_seat h z st)"
  by (cases z)
     (auto simp: grid_ok_def write_seat_def Let_def list_all_length length_nth_update2
        split: option.splits prod.splits)

lemma grid_ok_write_all: "grid_ok h' st \<Longrightarrow> grid_ok h' (write_all h zs st)"
  by (induction zs arbitrary: st) (auto simp: grid_ok_write_seat)

lemma place_student_ok:
  "grid_ok h st \<Longrightarrow> r < rows h \<Longrightarrow> c < cols h \<Longrightarrow>
   place_student h r c s st = Inr (write_seat h ((r, c), s) st)"
  by (auto simp: place_student_def set_seat_def grid_ok_def write_seat_def entry_def
        list_all_length split: option.splits)

lemma place_row_ok:
  "grid_ok h st \<Longrightarrow> r < rows h \<Longrightarrow> \<forall>c\<in>set cs. c < cols h \<Longrightarrow>
   place_row h r cs ss st
     = Inr (drop (length cs) ss, write_all h (zip (map (Pair r) cs) ss) st)"
proof (induction cs arbitrary: ss st)
  case Nil
  then show ?case by simp
next
  case (Cons c cs)
  show ?case
  proof (cases ss)
    case Nil
    then show ?thesis by simp
  next
    case (Cons s ss')
    from Cons.prems have ok: "grid_ok h (write_seat h ((r, c), s) st)"
      by (simp add: grid_ok_write_seat)
    from Cons.prems have "place_student h r c s st = Inr (write_seat h ((r, c), s) st)"
      by (simp add: place_student_ok)
    moreover have "place_row h r cs ss' (write_seat h ((r, c), s) st)
        = Inr (drop (length cs) ss',
               write_all h (zip (map (Pair r) cs) ss') (write_seat h ((r, c), s) st))"
      using Cons.prems ok by (intro Cons.IH) auto
    ultimately show ?thesis using Cons by simp
  qed
qed

lemma zip_append_drop:
  "zip (xs @ ys) zs = zip xs zs @ zip ys (drop (length xs) zs)"
  by (simp add: zip_append1)
     (metis append_take_drop_id zip_append1 append_Nil2 zip.simps(1) length_take min.cobounded2 take_all_iff zip_Nil)

lemma place_rows_ok:
  "grid_ok h st \<Longrightarrow> \<forall>r\<in>set rs. r < rows h \<Longrightarrow> (\<And>r c. c \<in> set (colr r) \<Longrightarrow> c < cols h) \<Longrightarrow>
   place_rows brk colr h rs ss st = Inr (write_all h (zip (seat_cells colr rs) ss) st)"
proof (induction rs arbitrary: ss st)
  case Nil
  then show ?case by (simp add: seat_cells_def)
next
  case (Cons r rs)
  show ?case
  proof (cases "brk \<and> ss = []")
    case True
    then show ?thesis by simp
  next
    case False
    let ?st1 = "write_all h (zip (map (Pair r) (colr r)) ss) st"
    from Cons.prems have row: "place_row h r (colr r) ss st = Inr (drop (length (colr r)) ss, ?st1)"
      by (intro place_row_ok) auto
    from Cons.prems have ok: "grid_ok h ?st1" by (simp add: grid_ok_write_all)
    have "place_rows brk colr h rs (drop (length (colr r)) ss) ?st1
        = Inr (write_all h (zip (seat_cells colr rs) (drop (length (colr r)) ss)) ?st1)"
      using Cons.prems ok by (intro Cons.IH) auto
    with row False show ?thesis
      by (simp add: seat_cells_def zip_append_drop)
  qed
qed

lemma filter_update_None:
  "c < length row \<Longrightarrow> row ! c = None \<Longrightarrow>
   length (filter (\<lambda>x. x \<noteq> None) (row[c := Some x]))
     = Suc (length (filter (\<lambda>x. x \<noteq> None) row))"
proof (induction row arbitrary: c)
  case Nil
  then show ?case by simp
next
  case (Cons y ys)
  then show ?case by (cases c) auto
qed

lemma occupied_update:
  "r < length g \<Longrightarrow> c < length (g ! r) \<Longrightarrow> g ! r ! c = None \<Longrightarrow>
   occupied (g[r := (g ! r)[c := Some x]]) = Suc (occupied g)"
proof (induction g arbitrary: r)
  case Nil
  then show ?case by simp
next
  case (Cons row g)
  show ?case
  proof (cases r)
    case 0
    with Cons.prems show ?thesis by (simp add: occupied_def filter_update_None del: not_None_eq)
  next
    case (Suc r')
    with Cons.prems Cons.IH[of r'] show ?thesis by (simp add: occupied_def del: not_None_eq)
  qed
qed

lemma hall_seats_write_seat_other:
  "code \<noteq> hall_code h \<Longrightarrow> hall_seats (write_seat h z st) code = hall_seats st code"
  by (cases z) (auto simp: write_seat_def)

lemma allocations_write_seat:
  "allocations (write_seat h ((r, c), s) st) = (allocations st)(reg_no s \<mapsto> entry h r c s)"
  by (simp add: write_seat_def)

lemma cell_write_seat:
  "grid_ok h st \<Longrightarrow> r < rows h \<Longrightarrow> c < cols h \<Longrightarrow>
   cell (write_seat h ((r, c), s) st) code r' c'
     = (if code = hall_code h \<and> r' = r \<and> c' = c then Some (reg_no s) else cell st code r' c')"
  by (auto simp: cell_def write_seat_def grid_ok_def Let_def list_all_length nth_list_update
        split: option.splits)

lemma hall_occupied_write_seat:
  "grid_ok h st \<Longrightarrow> r < rows h \<Longrightarrow> c < cols h \<Longrightarrow> cell st (hall_code h) r c = None \<Longrightarrow>
   hall_occupied (write_seat h ((r, c), s) st) (hall_code h)
     = Suc (hall_occupied st (hall_code h))"
  by (auto simp: hall_occupied_def cell_def write_seat_def grid_ok_def Let_def list_all_length
        occupied_update split: option.splits)

lemma consistent_write_seat:
  assumes "consistent st" "grid_ok h st" "r < rows h" "c < cols h"
    and "cell st (hall_code h) r c = None" "allocations st (reg_no s) = None"
  shows "consistent (write_seat h ((r, c), s) st)"
  unfolding consistent_def
proof (intro conjI allI impI)
  fix reg e
  assume a: "allocations (write_seat h ((r, c), s) st) reg = Some e"
  show "1 \<le> a_row e" "1 \<le> a_col e"
    using a assms(1) by (auto simp: allocations_write_seat consistent_def entry_def split: if_splits)
  show "cell (write_seat h ((r, c), s) st) (a_hall_code e) (a_row e - 1) (a_col e - 1) = Some reg"
  proof (cases "reg = reg_no s")
    case True
    with a have "e = entry h r c s" by (simp add: allocations_write_seat)
    with True assms show ?thesis by (simp add: cell_write_seat entry_def)
  next
    case False
    with a have "allocations st reg = Some e" by (simp add: allocations_write_seat)
    with assms(1) have "cell st (a_hall_code e) (a_row e - 1) (a_col e - 1) = Some reg"
      by (simp add: consistent_def)
    with assms show ?thesis by (auto simp: cell_write_seat)
  qed
next
  fix code r' c' reg
  assume a: "cell (write_seat h ((r, c), s) st) code r' c' = Some reg"
  show "map_option seat_of (allocations (write_seat h ((r, c), s) st) reg) = Some (code, r' + 1, c' + 1)"
  proof (cases "code = hall_code h \<and> r' = r \<and> c' = c")
    case True
    with a assms have "reg = reg_no s" by (simp add: cell_write_seat)
    with True show ?thesis by (simp add: allocations_write_seat seat_of_def entry_def)
  next
    case False
    with a assms have old: "cell st code r' c' = Some reg" by (simp add: cell_write_seat)
    with assms(1) have m: "map_option seat_of (allocations st reg) = Some (code, r' + 1, c' + 1)"
      by (simp add: consistent_def)
    with assms(6) have "reg \<noteq> reg_no s" by auto
    with m show ?thesis by (simp add: allocations_write_seat)
  qed
qed

lemma in_hall_Cons [simp]:
  "in_hall h (((r, c), s) # zs) \<longleftrightarrow> r < rows h \<and> c < cols h \<and> in_hall h zs"
  by (auto simp: in_hall_def)

lemma hall_seats_write_all_other:
  "code \<noteq> hall_code h \<Longrightarrow> hall_seats (write_all h zs st) code = hall_seats st code"
  by (induction zs arbitrary: st) (simp_all add: hall_seats_write_seat_other)




lemma hall_occupied_write_all:
  "grid_ok h st \<Longrightarrow> in_hall h zs \<Longrightarrow> distinct (map fst zs) \<Longrightarrow>
   \<forall>z\<in>set zs. cell st (hall_code h) (fst (fst z)) (snd (fst z)) = None \<Longrightarrow>
   hall_occupied (write_all h zs st) (hall_code h) = hall_occupied st (hall_code h) + length zs"
proof (induction zs arbitrary: st)
  case Nil
  then show ?case by simp
next
  case (Cons z zs)
  obtain r c s where z: "z = ((r, c), s)" by (metis surj_pair)
  from Cons.prems z have ok: "grid_ok h (write_seat h z st)" "in_hall h zs" "distinct (map fst zs)"
    by (auto simp: grid_ok_write_seat)
  have "\<forall>z'\<in>set zs. cell (write_seat h z st) (hall_code h) (fst (fst z')) (snd (fst z')) = None"
  proof
    fix z' assume z': "z' \<in> set zs"
    with Cons.prems z have "fst z' \<noteq> (r, c)" by force
    then have "\<not> (fst (fst z') = r \<and> snd (fst z') = c)" by (cases z') auto
    with Cons.prems z z' show "cell (write_seat h z st) (hall_code h) (fst (fst z')) (snd (fst z')) = None"
      by (auto simp: cell_write_seat)
  qed
  with ok have "hall_occupied (write_all h zs (write_seat h z st)) (hall_code h)
      = hall_occupied (write_seat h z st) (hall_code h) + length zs"
    by (rule Cons.IH)
  with Cons.prems z show ?case by (simp add: hall_occupied_write_seat)
qed

lemma dom_allocations_write_all:
  "dom (allocations (write_all h zs st)) = dom (allocations st) \<union> (\<lambda>z. reg_no (snd z)) ` set zs"
proof (induction zs arbitrary: st)
  case Nil
  then show ?case by simp
next
  case (Cons z zs)
  obtain r c s where z: "z = ((r, c), s)" by (metis surj_pair)
  show ?case using Cons.IH[of "write_seat h z st"] z
    by (auto simp: allocations_write_seat)
qed

lemma consistent_write_all:
  "consistent st \<Longrightarrow> grid_ok h st \<Longrightarrow> in_hall h zs \<Longrightarrow> distinct (map fst zs) \<Longrightarrow>
   \<forall>z\<in>set zs. cell st (hall_code h) (fst (fst z)) (snd (fst z)) = None \<Longrightarrow>
   distinct (map (\<lambda>z. reg_no (snd z)) zs) \<Longrightarrow>
   \<forall>z\<in>set zs. allocations st (reg_no (snd z)) = None \<Longrightarrow>
   consistent (write_all h zs st)"
proof (induction zs arbitrary: st)
  case Nil
  then show ?case by simp
next
  case (Cons z zs)
  obtain r c s where z: "z = ((r, c), s)" by (metis surj_pair)
  from Cons.prems z have c1: "consistent (write_seat h z st)"
    by (auto intro!: consistent_write_seat)
  from Cons.prems z have ok: "grid_ok h (write_seat h z st)" "in_hall h zs" "distinct (map fst zs)"
    "distinct (map (\<lambda>z. reg_no (snd z)) zs)"
    by (auto simp: grid_ok_write_seat)
  have e: "\<forall>z'\<in>set zs. cell (write_seat h z st) (hall_code h) (fst (fst z')) (snd (fst z')) = None"
  proof
    fix z' assume z': "z' \<in> set zs"
    with Cons.prems z have "fst z' \<noteq> (r, c)" by force
    then have "\<not> (fst (fst z') = r \<and> snd (fst z') = c)" by (cases z') auto
    with Cons.prems z z' show "cell (write_seat h z st) (hall_code h) (fst (fst z')) (snd (fst z')) = None"
      by (auto simp: cell_write_seat)
  qed
  have a: "\<forall>z'\<in>set zs. allocations (write_seat h z st) (reg_no (snd z')) = None"
  proof
    fix z' assume z': "z' \<in> set zs"
    with Cons.prems z have "reg_no (snd z') \<noteq> reg_no s" by force
    with Cons.prems z z' show "allocations (write_seat h z st) (reg_no (snd z')) = None"
      by (simp add: allocations_write_seat)
  qed
  from c1 ok(1-3) e ok(4) a have "consistent (write_all h zs (write_seat h z st))"
    by (rule Cons.IH)
  then show ?case by simp
qed

lemma good_cols_col_range: "good_cols h (col_range (cols h))"
  by (auto simp: good_cols_def col_range_def)

lemma good_cols_row_wise: "good_cols h (\<lambda>r. [0..<cols h])"
  by (auto simp: good_cols_def)

lemma good_cols_length: "good_cols h colr \<Longrightarrow> length (colr r) = cols h"
  by (metis good_cols_def distinct_card card_lessThan)

lemma set_seat_cells:
  "set (seat_cells colr rs) = {(r, c). r \<in> set rs \<and> c \<in> set (colr r)}"
  by (auto simp: seat_cells_def)

lemma distinct_seat_cells:
  "distinct rs \<Longrightarrow> (\<And>r. distinct (colr r)) \<Longrightarrow> distinct (seat_cells colr rs)"
proof (induction rs)
  case Nil
  then show ?case by (simp add: seat_cells_def)
next
  case (Cons r rs)
  then have "distinct (seat_cells colr rs)" by simp
  moreover have "distinct (map (Pair r) (colr r))"
    using Cons.prems(2) by (simp add: distinct_map inj_on_def)
  moreover have "set (map (Pair r) (colr r)) \<inter> set (seat_cells colr rs) = {}"
    using Cons.prems(1) by (auto simp: set_seat_cells)
  ultimately show ?case by (simp add: seat_cells_def)
qed

lemma length_seat_cells:
  "good_cols h colr \<Longrightarrow> length (seat_cells colr rs) = length rs * cols h"
  by (induction rs) (simp_all add: seat_cells_def good_cols_length)

lemma place_rows_hall:
  assumes "grid_ok h st" "good_cols h colr" "length xs \<le> rows h * cols h"
  defines "zs \<equiv> zip (seat_cells colr [0..<rows h]) xs"
  shows "place_rows brk colr h [0..<rows h] xs st = Inr (write_all h zs st)"
    and "map snd zs = xs" and "in_hall h zs" and "distinct (map fst zs)"
proof -
  from assms(2) have r: "\<And>r c. c \<in> set (colr r) \<Longrightarrow> c < cols h"
    by (auto simp: good_cols_def)
  with assms(1) show "place_rows brk colr h [0..<rows h] xs st = Inr (write_all h zs st)"
    unfolding zs_def by (intro place_rows_ok) auto
  from assms(2,3) have len: "length xs \<le> length (seat_cells colr [0..<rows h])"
    by (simp add: length_seat_cells)
  then show "map snd zs = xs" unfolding zs_def by (simp add: map_snd_zip_take)
  have "set zs \<subseteq> set (seat_cells colr [0..<rows h]) \<times> UNIV"
    unfolding zs_def by (auto dest: set_zip_leftD)
  with r show "in_hall h zs" by (fastforce simp: in_hall_def set_seat_cells)
  have "distinct (seat_cells colr [0..<rows h])"
    using assms(2) by (intro distinct_seat_cells) (auto simp: good_cols_def)
  then show "distinct (map fst zs)"
    unfolding zs_def by (simp add: map_fst_zip_take distinct_take)
qed

lemma placed_hall:
  assumes "grid_ok h st" "good_cols h colr" "length xs \<le> rows h * cols h" "hall_empty h st"
  obtains st' where "place_rows brk colr h [0..<rows h] xs st = Inr st'"
    and "hall_occupied st' (hall_code h) = hall_occupied st (hall_code h) + length xs"
    and "dom (allocations st') = dom (allocations st) \<union> reg_no ` set xs"
    and "\<And>h'. grid_ok h' st \<Longrightarrow> grid_ok h' st'"
    and "\<And>code. code \<noteq> hall_code h \<Longrightarrow> hall_seats st' code = hall_seats st code"
    and "consistent st \<Longrightarrow> distinct (map reg_no xs) \<Longrightarrow>
         \<forall>x\<in>set xs. allocations st (reg_no x) = None \<Longrightarrow> consistent st'"
proof -
  define zs where "zs = zip (seat_cells colr [0..<rows h]) xs"
  note p = place_rows_hall(1)[OF assms(1-3), of brk, folded zs_def]
    place_rows_hall(2-4)[OF assms(1-3), folded zs_def]
  from assms(4) have e: "\<forall>z\<in>set zs. cell st (hall_code h) (fst (fst z)) (snd (fst z)) = None"
    by (simp add: hall_empty_def)
  have "map (\<lambda>z. reg_no (snd z)) zs = map reg_no (map snd zs)" by simp
  then have regs: "map (\<lambda>z. reg_no (snd z)) zs = map reg_no xs"
    by (simp only: p(2))
  have "set (map (\<lambda>z. reg_no (snd z)) zs) = set (map reg_no xs)"
    by (simp only: regs)
  then have regset: "(\<lambda>z. reg_no (snd z)) ` set zs = reg_no ` set xs"
    by simp
  have "length (map snd zs) = length xs" by (simp only: p(2))
  then have len: "length zs = length xs" by simp
  show ?thesis
  proof (rule that[of "write_all h zs st"])
    show "place_rows brk colr h [0..<rows h] xs st = Inr (write_all h zs st)" by (rule p(1))
    show "hall_occupied (write_all h zs st) (hall_code h) = hall_occupied st (hall_code h) + length xs"
      using hall_occupied_write_all[OF assms(1) p(3) p(4) e] len by simp
    show "dom (allocations (write_all h zs st)) = dom (allocations st) \<union> reg_no ` set xs"
      by (simp add: dom_allocations_write_all regset)
    show "\<And>h'. grid_ok h' st \<Longrightarrow> grid_ok h' (write_all h zs st)" by (rule grid_ok_write_all)
    show "\<And>code. code \<noteq> hall_code h \<Longrightarrow> hall_seats (write_all h zs st) code = hall_seats st code"
      by (rule hall_seats_write_all_other)
    show "consistent (write_all h zs st)"
      if "consistent st" "distinct (map reg_no xs)" "\<forall>x\<in>set xs. allocations st (reg_no x) = None"
    proof (rule consistent_write_all[OF that(1) assms(1) p(3) p(4) e])
      show "distinct (map (\<lambda>z. reg_no (snd z)) zs)" using that(2) regs by simp
      show "\<forall>z\<in>set zs. allocations st (reg_no (snd z)) = None"
      proof
        fix z assume "z \<in> set zs"
        then have "snd z \<in> set (map snd zs)" by simp
        then have "snd z \<in> set xs" by (simp only: p(2))
        with that(3) show "allocations st (reg_no (snd z)) = None" by simp
      qed
    qed
  qed
qed

lemma take_turns_pool: "pool3 (take_turns usable q) = pool3 q"
proof -
  obtain hs f s where q: "q = (hs, f, s)" by (metis surj_pair)
  show ?thesis unfolding q
    by (cases f; cases s) (simp_all add: take_turns_def pool3_def Let_def)
qed

lemma take_turns_bound:
  "int (length (fst q)) \<le> b \<Longrightarrow> usable \<le> b \<Longrightarrow> int (length (fst (take_turns usable q))) \<le> b"
proof -
  obtain hs f s where q: "q = (hs, f, s)" by (metis surj_pair)
  show "int (length (fst q)) \<le> b \<Longrightarrow> usable \<le> b \<Longrightarrow> int (length (fst (take_turns usable q))) \<le> b"
    unfolding q by (cases f; cases s) (auto simp add: take_turns_def Let_def)
qed

lemma alternate_pool: "pool3 (alternate usable q) = pool3 q"
proof (induction usable q rule: alternate.induct)
  case (1 usable q)
  show ?case
  proof (cases "more_turns usable q")
    case True
    with 1 have "pool3 (alternate usable (take_turns usable q)) = pool3 (take_turns usable q)"
      by simp
    with True show ?thesis by (subst alternate.simps) (simp add: take_turns_pool)
  next
    case False
    then show ?thesis by (subst alternate.simps) simp
  qed
qed

lemma alternate_bound:
  "int (length (fst q)) \<le> b \<Longrightarrow> usable \<le> b \<Longrightarrow> int (length (fst (alternate usable q))) \<le> b"
proof (induction usable q rule: alternate.induct)
  case (1 usable q)
  show ?case
  proof (cases "more_turns usable q")
    case True
    from "1.prems" have "int (length (fst (take_turns usable q))) \<le> b"
      by (intro take_turns_bound)
    with 1 True have "int (length (fst (alternate usable (take_turns usable q)))) \<le> b"
      by simp
    with True show ?thesis by (subst alternate.simps) simp
  next
    case False
    with "1.prems" show ?thesis by (subst alternate.simps) simp
  qed
qed


lemma sum_list_one_changed:
  assumes "distinct ks" "k \<in> set ks" "\<And>k'. k' \<noteq> k \<Longrightarrow> F' k' = F k'" "F' k = F k + (n::nat)"
  shows "sum_list (map F' ks) = sum_list (map F ks) + n"
  using assms(1,2)
proof (induction ks)
  case Nil
  then show ?case by simp
next
  case (Cons a ks)
  show ?case
  proof (cases "a = k")
    case True
    with Cons.prems have "k \<notin> set ks" by simp
    then have "map F' ks = map F ks" by (intro map_cong refl assms(3)) auto
    then have "sum_list (map F' ks) = sum_list (map F ks)" by (simp only:)
    then show ?thesis by (simp add: True assms(4))
  next
    case False
    then have "F' a = F a" by (rule assms(3))
    moreover from False Cons.prems have "sum_list (map F' ks) = sum_list (map F ks) + n"
      by (intro Cons.IH) auto
    ultimately show ?thesis by simp
  qed
qed

lemma hall_occupied_cong:
  "hall_seats st' code = hall_seats st code \<Longrightarrow> hall_occupied st' code = hall_occupied st code"
  by (simp add: hall_occupied_def)

lemma occupied_cells_step:
  assumes "distinct (map hall_code H)" "h \<in> set H"
    and "\<And>code. code \<noteq> hall_code h \<Longrightarrow> hall_seats st' code = hall_seats st code"
    and "hall_occupied st' (hall_code h) = hall_occupied st (hall_code h) + n"
  shows "occupied_cells H st' = occupied_cells H st + n"
  unfolding occupied_cells_def
proof (rule sum_list_one_changed[where k = "hall_code h"])
  show "distinct (remdups (map hall_code H))" by simp
  show "hall_code h \<in> set (remdups (map hall_code H))" using assms(2) by simp
  show "\<And>k'. k' \<noteq> hall_code h \<Longrightarrow> hall_occupied st' k' = hall_occupied st k'"
    by (rule hall_occupied_cong) (rule assms(3))
  show "hall_occupied st' (hall_code h) = hall_occupied st (hall_code h) + n" by (rule assms(4))
qed

lemma hall_empty_cong:
  "hall_seats st' (hall_code h) = hall_seats st (hall_code h) \<Longrightarrow> hall_empty h st \<Longrightarrow> hall_empty h st'"
  by (simp add: hall_empty_def cell_def)

lemma run_inv_place:
  assumes inv: "run_inv n R H (h # hs) queue st"
    and H: "distinct (map hall_code H)" "h \<in> set H" "hall_code h \<notin> hall_code ` set hs"
    and gc: "good_cols h colr"
    and xs: "mset xs + mset queue' = mset queue" "length xs \<le> rows h * cols h"
  obtains st' where "place_rows brk colr h [0..<rows h] xs st = Inr st'"
    and "run_inv n R H hs queue' st'"
proof -
  from inv H(2) have ok: "grid_ok h st" and emp: "hall_empty h st" and con: "consistent st"
    by (auto simp: run_inv_def)
  have "image_mset reg_no (mset xs + mset queue') = image_mset reg_no (mset queue)"
    by (simp only: xs(1))
  then have m: "mset (map reg_no (xs @ queue')) = mset (map reg_no queue)" by simp
  from inv have dq: "distinct (map reg_no queue)" by (simp add: run_inv_def)
  have "distinct (map reg_no (xs @ queue'))"
    by (rule iffD2[OF mset_eq_imp_distinct_iff[OF m] dq])
  then have dx: "distinct (map reg_no xs)" and dq': "distinct (map reg_no queue')"
    and disj: "reg_no ` set xs \<inter> reg_no ` set queue' = {}"
    by auto
  have "set_mset (mset xs + mset queue') = set_mset (mset queue)" by (simp only: xs(1))
  then have sets: "set xs \<union> set queue' = set queue" by simp
  from inv sets have new: "\<forall>x\<in>set xs. allocations st (reg_no x) = None"
    by (auto simp: run_inv_def)
  have "size (mset xs + mset queue') = size (mset queue)" by (simp only: xs(1))
  then have len: "length xs + length queue' = length queue" by simp
  show ?thesis
  proof (rule placed_hall[OF ok gc xs(2) emp, of brk], goal_cases)
    case (1 st')
    note p = 1(1) and occ = 1(2) and dom = 1(3) and grids = 1(4) and other = 1(5)
    have con': "consistent st'" using con dx new by (rule 1(6))
    have "run_inv n R H hs queue' st'"
      unfolding run_inv_def
    proof (intro conjI)
      show "\<forall>h\<in>set H. grid_ok h st'" using inv grids by (simp add: run_inv_def)
      show "\<forall>h\<in>set hs. hall_empty h st'"
      proof
        fix h' assume h': "h' \<in> set hs"
        have "hall_code h' \<noteq> hall_code h"
        proof
          assume "hall_code h' = hall_code h"
          then have "hall_code h = hall_code h'" by simp
          with h' have "hall_code h \<in> hall_code ` set hs" by (rule rev_image_eqI)
          with H(3) show False by simp
        qed
        then have "hall_seats st' (hall_code h') = hall_seats st (hall_code h')" by (rule other)
        moreover from inv h' have "hall_empty h' st" by (simp add: run_inv_def)
        ultimately show "hall_empty h' st'" by (rule hall_empty_cong)
      qed
      show "consistent st'" by (rule con')
      show "distinct (map reg_no queue')" by (rule dq')
      show "\<forall>x\<in>set queue'. allocations st' (reg_no x) = None"
      proof
        fix x assume x: "x \<in> set queue'"
        with sets inv have "allocations st (reg_no x) = None" by (auto simp: run_inv_def)
        then have "reg_no x \<notin> dom (allocations st)" by auto
        moreover from x disj have "reg_no x \<notin> reg_no ` set xs" by auto
        ultimately have "reg_no x \<notin> dom (allocations st')" by (simp add: dom)
        then show "allocations st' (reg_no x) = None" by auto
      qed
      show "dom (allocations st') \<union> reg_no ` set queue' = R"
      proof -
        from inv have A: "dom (allocations st) \<union> reg_no ` set queue = R" by (simp add: run_inv_def)
        have B: "reg_no ` set xs \<union> reg_no ` set queue' = reg_no ` set queue"
          by (simp only: image_Un[symmetric] sets)
        have "dom (allocations st') \<union> reg_no ` set queue'
            = dom (allocations st) \<union> (reg_no ` set xs \<union> reg_no ` set queue')"
          by (simp only: dom Un_assoc)
        also have "\<dots> = R" by (simp only: B A)
        finally show ?thesis .
      qed
      show "occupied_cells H st' + length queue' = n"
      proof -
        from inv have A: "occupied_cells H st + length queue = n" by (simp add: run_inv_def)
        have "occupied_cells H st' = occupied_cells H st + length xs"
          using H(1,2) other occ by (rule occupied_cells_step)
        then have "occupied_cells H st' + length queue'
            = occupied_cells H st + (length xs + length queue')" by simp
        also have "\<dots> = n" by (simp only: len A)
        finally show ?thesis .
      qed
    qed
    with p show ?thesis by (rule that)
  qed
qed

lemma run_inv_skip: "run_inv n R H (h # hs) queue st \<Longrightarrow> run_inv n R H hs queue st"
  by (simp add: run_inv_def)

lemma run_inv_perm:
  assumes "run_inv n R H hs queue st" "mset queue' = mset queue"
  shows "run_inv n R H hs queue' st"
proof -
  from assms(2) have s: "set queue' = set queue" by (rule mset_eq_setD)
  from assms(2) have l: "length queue' = length queue" by (rule mset_eq_length)
  have "mset (map reg_no queue') = mset (map reg_no queue)" by (simp add: assms(2))
  then have d: "distinct (map reg_no queue') = distinct (map reg_no queue)"
    by (rule mset_eq_imp_distinct_iff)
  from assms(1) show ?thesis unfolding run_inv_def by (simp add: s l d)
qed

lemma fold_grids_other:
  "code \<notin> hall_code ` set halls \<Longrightarrow>
   fold (\<lambda>h m. m(hall_code h \<mapsto> empty_grid h)) halls m code = m code"
  by (induction halls arbitrary: m) (simp_all del: fun_upd_apply add: fun_upd_other)

lemma fold_grids_distinct:
  "distinct (map hall_code halls) \<Longrightarrow> h \<in> set halls \<Longrightarrow>
   fold (\<lambda>h m. m(hall_code h \<mapsto> empty_grid h)) halls m (hall_code h) = Some (empty_grid h)"
proof (induction halls arbitrary: m)
  case Nil
  then show ?case by simp
next
  case (Cons a halls)
  show ?case
  proof (cases "h = a")
    case True
    with Cons.prems have "hall_code h \<notin> hall_code ` set halls" by simp
    then have "fold (\<lambda>h m. m(hall_code h \<mapsto> empty_grid h)) halls (m(hall_code a \<mapsto> empty_grid a)) (hall_code h)
        = (m(hall_code a \<mapsto> empty_grid a)) (hall_code h)"
      by (rule fold_grids_other)
    with True show ?thesis by (simp del: fun_upd_apply add: fun_upd_same)
  next
    case False
    with Cons.prems have "fold (\<lambda>h m. m(hall_code h \<mapsto> empty_grid h)) halls (m(hall_code a \<mapsto> empty_grid a)) (hall_code h)
        = Some (empty_grid h)"
      by (intro Cons.IH) auto
    then show ?thesis by (simp del: fun_upd_apply)
  qed
qed

lemma fold_grids_cases:
  "fold (\<lambda>h m. m(hall_code h \<mapsto> empty_grid h)) halls m code = Some g \<Longrightarrow>
   m code = Some g \<or> (\<exists>h\<in>set halls. g = empty_grid h)"
proof (induction halls arbitrary: m)
  case Nil
  then show ?case by simp
next
  case (Cons a halls)
  from Cons.prems have "fold (\<lambda>h m. m(hall_code h \<mapsto> empty_grid h)) halls (m(hall_code a \<mapsto> empty_grid a)) code = Some g"
    by (simp del: fun_upd_apply)
  then have "(m(hall_code a \<mapsto> empty_grid a)) code = Some g \<or> (\<exists>h\<in>set halls. g = empty_grid h)"
    by (rule Cons.IH)
  then show ?case by (auto split: if_splits)
qed

lemma cell_init: "cell (init halls) code r c = None"
proof (cases "hall_seats (init halls) code")
  case None
  then show ?thesis by (simp add: cell_def)
next
  case (Some g)
  then have "\<exists>h\<in>set halls. g = empty_grid h"
    using fold_grids_cases[of halls Map.empty code g] by (simp add: init_def)
  then obtain h where "g = empty_grid h" by blast
  with Some show ?thesis by (auto simp: cell_def empty_grid_def)
qed

lemma grid_ok_init:
  "distinct (map hall_code halls) \<Longrightarrow> h \<in> set halls \<Longrightarrow> grid_ok h (init halls)"
  using fold_grids_distinct[of halls h Map.empty]
  by (simp add: grid_ok_def init_def empty_grid_def list_all_length)

lemma hall_occupied_init: "hall_occupied (init halls) code = 0"
  by (auto simp: hall_occupied_def init_grids_empty split: option.splits)

lemma occupied_cells_init: "occupied_cells H (init halls) = 0"
  by (simp add: occupied_cells_def hall_occupied_init)

lemma consistent_init: "consistent (init halls)"
  by (simp add: consistent_def cell_init init_allocations)

lemma run_inv_init:
  "distinct (map hall_code halls) \<Longrightarrow> distinct (map reg_no students) \<Longrightarrow>
   run_inv (length students) (reg_no ` set students) halls hs students (init halls)"
  by (simp add: run_inv_def grid_ok_init hall_empty_def cell_init consistent_init
        init_allocations occupied_cells_init)

lemma alternate_from_empty:
  assumes "alternate usable ([], f, s) = (xs, f', s')"
  shows "mset xs + mset (f' @ s') = mset (f @ s)"
    and "usable \<le> int k \<Longrightarrow> length xs \<le> k"
proof -
  from alternate_pool[of usable "([], f, s)"] assms
  show "mset xs + mset (f' @ s') = mset (f @ s)"
    by (simp add: pool3_def add.assoc)
  assume "usable \<le> int k"
  with alternate_bound[of "([], f, s)" "int k" usable] assms
  show "length xs \<le> k" by simp
qed

lemma allocate_hall_university_inv:
  assumes inv: "run_inv n R H (h # hs) (f @ s) st"
    and H: "distinct (map hall_code H)" "h \<in> set H" "hall_code h \<notin> hall_code ` set hs"
  obtains f' s' st' where "allocate_hall_university sph h (f, s, st) = Inr (f', s', st')"
    and "run_inv n R H hs (f' @ s') st'"
proof (cases "sph (hall_code h) \<le> 0")
  case True
  then have "allocate_hall_university sph h (f, s, st) = Inr (f, s, st)"
    by (simp add: allocate_hall_university_def)
  moreover from inv have "run_inv n R H hs (f @ s) st" by (rule run_inv_skip)
  ultimately show ?thesis by (rule that)
next
  case False
  define usable where "usable = min (int (rows h * cols h)) (min (total_capacity h) (sph (hall_code h)))"
  obtain xs f' s' where alt: "alternate usable ([], f, s) = (xs, f', s')"
    by (metis surj_pair)
  have u: "usable \<le> int (rows h * cols h)" unfolding usable_def by (rule min.cobounded1)
  from alt have pool: "mset xs + mset (f' @ s') = mset (f @ s)"
    by (rule alternate_from_empty(1))
  from alt u have len: "length xs \<le> rows h * cols h"
    by (rule alternate_from_empty(2))
  show ?thesis
  proof (cases "xs = []")
    case True
    with False alt have "allocate_hall_university sph h (f, s, st) = Inr (f', s', st)"
      by (simp add: allocate_hall_university_def usable_def Let_def)
    moreover from True pool have "mset (f' @ s') = mset (f @ s)" by simp
    with run_inv_skip[OF inv] have "run_inv n R H hs (f' @ s') st" by (rule run_inv_perm)
    ultimately show ?thesis by (rule that)
  next
    case nonempty: False
    show ?thesis
    proof (rule run_inv_place[OF inv H good_cols_col_range pool len, of True], goal_cases)
      case (1 st')
      from 1(1) have "place_s_pattern h xs st = Inr st'" by (simp add: place_s_pattern_def)
      with False nonempty alt have "allocate_hall_university sph h (f, s, st) = Inr (f', s', st')"
        by (simp add: allocate_hall_university_def usable_def Let_def)
      then show ?case using 1(2) by (rule that)
    qed
  qed
qed

lemma halls_loop_university_inv:
  assumes "run_inv n R H hs (f @ s) st" "distinct (map hall_code H)" "set hs \<subseteq> set H"
    "distinct (map hall_code hs)"
  obtains f' s' st' where "halls_loop_university sph hs (f, s, st) = Inr (f', s', st')"
    and "run_inv n R H [] (f' @ s') st'"
  using assms
proof (induction hs arbitrary: f s st thesis)
  case Nil
  then show ?case by simp
next
  case (Cons h hs)
  from Cons.prems have h: "h \<in> set H" "hall_code h \<notin> hall_code ` set hs" by auto
  show ?case
  proof (rule allocate_hall_university_inv[OF Cons.prems(2) Cons.prems(3) h, of sph], goal_cases)
    case (1 f1 s1 st1)
    show ?case
    proof (rule Cons.IH[of f1 s1 st1])
      show "run_inv n R H hs (f1 @ s1) st1" by (rule 1(2))
      show "distinct (map hall_code H)" by (rule Cons.prems(3))
      show "set hs \<subseteq> set H" using Cons.prems(4) by simp
      show "distinct (map hall_code hs)" using Cons.prems(5) by simp
    next
      fix f' s' st'
      assume "halls_loop_university sph hs (f1, s1, st1) = Inr (f', s', st')"
        and r: "run_inv n R H [] (f' @ s') st'"
      with 1(1) have "halls_loop_university sph (h # hs) (f, s, st) = Inr (f', s', st')" by simp
      then show thesis using r by (rule Cons.prems(1))
    qed
  qed
qed

lemma distinct_halls_to_use:
  "distinct (map hall_code halls) \<Longrightarrow> distinct (map hall_code (halls_to_use n halls))"
  by (simp add: halls_to_use_def Let_def distinct_map_filter)

lemma set_halls_to_use: "set (halls_to_use n halls) \<subseteq> set halls"
  by (auto simp: halls_to_use_def Let_def)

lemma allocate_seats_university_run_inv:
  assumes "distinct (map hall_code halls)" "distinct (map reg_no students)"
    and "allocate_seats_university students halls = Inr st"
  shows "run_inv (length students) (reg_no ` set students) halls [] [] st"
proof -
  define n where "n = length students"
  define htu where "htu = halls_to_use n halls"
  define f where "f = take (Suc n div 2) students"
  define s where "s = drop (Suc n div 2) students"
  define sph where "sph = students_per_hall htu n"
  have fs: "f @ s = students" by (simp add: f_def s_def)
  from assms(1,2) have "run_inv (length students) (reg_no ` set students) halls htu (f @ s) (init halls)"
    unfolding fs by (rule run_inv_init)
  then obtain f' s' st' where loop: "halls_loop_university sph htu (f, s, init halls) = Inr (f', s', st')"
    and inv: "run_inv (length students) (reg_no ` set students) halls [] (f' @ s') st'"
    using halls_loop_university_inv[of "length students" "reg_no ` set students" halls htu f s "init halls" sph]
      assms(1) set_halls_to_use[of n halls] distinct_halls_to_use[OF assms(1), of n]
    unfolding htu_def by blast
  from assms(3) loop have "f' @ s' = [] \<and> st = st'"
    by (simp add: allocate_seats_university_def Let_def n_def[symmetric] htu_def[symmetric]
          f_def[symmetric] s_def[symmetric] sph_def[symmetric]
        split: sum.splits if_splits)
  with inv show ?thesis by simp
qed

lemma sum_list_one_changed':
  fixes F :: "'k \<Rightarrow> 'a::comm_monoid_add"
  assumes "distinct ks" "k \<in> set ks" "\<And>k'. k' \<noteq> k \<Longrightarrow> F' k' = F k'" "F k = F' k + d"
  shows "sum_list (map F ks) = sum_list (map F' ks) + d"
  using assms(1,2)
proof (induction ks)
  case Nil
  then show ?case by simp
next
  case (Cons a ks)
  show ?case
  proof (cases "a = k")
    case True
    with Cons.prems have "k \<notin> set ks" by simp
    then have "map F' ks = map F ks" by (intro map_cong refl assms(3)) auto
    then have "sum_list (map F' ks) = sum_list (map F ks)" by (simp only:)
    then show ?thesis by (simp add: True assms(4) ac_simps)
  next
    case False
    then have "F' a = F a" by (rule assms(3))
    moreover from False Cons.prems have "sum_list (map F ks) = sum_list (map F' ks) + d"
      by (intro Cons.IH) auto
    ultimately show ?thesis by (simp add: ac_simps)
  qed
qed

lemma pool_pop:
  assumes "distinct K" "c \<in> set K" "remaining c \<noteq> []"
  shows "mset (pool K remaining)
           = mset (pool K (remaining(c := tl (remaining c)))) + {#hd (remaining c)#}"
proof -
  have "sum_list (map (\<lambda>k. mset (remaining k)) K)
      = sum_list (map (\<lambda>k. mset ((remaining(c := tl (remaining c))) k)) K) + {#hd (remaining c)#}"
  proof (rule sum_list_one_changed'[OF assms(1,2)])
    show "\<And>k'. k' \<noteq> c \<Longrightarrow> mset ((remaining(c := tl (remaining c))) k') = mset (remaining k')"
      by simp
    from assms(3) show "mset (remaining c) = mset ((remaining(c := tl (remaining c))) c) + {#hd (remaining c)#}"
      by (cases "remaining c") simp_all
  qed
  then show ?thesis by (simp add: pool_def mset_concat comp_def)
qed

lemma round_robin_pass_packed:
  "distinct K \<Longrightarrow> set cs \<subseteq> set K \<Longrightarrow>
   packed K (round_robin_pass usable cs (hs, rem)) = packed K (hs, rem)"
proof (induction cs arbitrary: hs rem)
  case Nil
  then show ?case by simp
next
  case (Cons c cs)
  show ?case
  proof (cases "rem c \<noteq> [] \<and> int (length hs) < usable")
    case True
    from Cons.prems have "packed K (round_robin_pass usable cs (hs @ [hd (rem c)], rem(c := tl (rem c))))
        = packed K (hs @ [hd (rem c)], rem(c := tl (rem c)))"
      by (intro Cons.IH) auto
    also have "\<dots> = packed K (hs, rem)"
      using pool_pop[of K c rem] Cons.prems True by (simp add: packed_def)
    finally show ?thesis using True by simp
  next
    case False
    from Cons.prems have "packed K (round_robin_pass usable cs (hs, rem)) = packed K (hs, rem)"
      by (intro Cons.IH) auto
    with False show ?thesis by auto
  qed
qed

lemma round_robin_pass_bound:
  "int (length hs) \<le> b \<Longrightarrow> usable \<le> b \<Longrightarrow>
   int (length (fst (round_robin_pass usable cs (hs, rem)))) \<le> b"
proof (induction cs arbitrary: hs rem)
  case Nil
  then show ?case by simp
next
  case (Cons c cs)
  show ?case
  proof (cases "rem c \<noteq> [] \<and> int (length hs) < usable")
    case True
    with Cons.prems have "int (length (hs @ [hd (rem c)])) \<le> b" by simp
    then have "int (length (fst (round_robin_pass usable cs (hs @ [hd (rem c)], rem(c := tl (rem c)))))) \<le> b"
      using Cons.prems(2) by (rule Cons.IH)
    with True show ?thesis by simp
  next
    case False
    from Cons.prems have "int (length (fst (round_robin_pass usable cs (hs, rem)))) \<le> b"
      by (intro Cons.IH)
    with False show ?thesis by auto
  qed
qed

lemma round_robin_packed:
  "distinct K \<Longrightarrow> set cur \<subseteq> set K \<Longrightarrow> packed K (round_robin usable cur q) = packed K q"
proof (induction usable cur q rule: round_robin.induct)
  case (1 usable cur q)
  obtain hs rem where q: "q = (hs, rem)" by (cases q)
  show ?case
  proof (cases "round_robin_cond usable cur q")
    case True
    with 1 have "packed K (round_robin usable cur (round_robin_pass usable cur q))
        = packed K (round_robin_pass usable cur q)" by simp
    also have "\<dots> = packed K q" unfolding q using "1.prems" by (rule round_robin_pass_packed)
    finally show ?thesis using True by (subst round_robin.simps) simp
  next
    case False
    then show ?thesis by (subst round_robin.simps) simp
  qed
qed

lemma round_robin_bound:
  "int (length (fst q)) \<le> b \<Longrightarrow> usable \<le> b \<Longrightarrow>
   int (length (fst (round_robin usable cur q))) \<le> b"
proof (induction usable cur q rule: round_robin.induct)
  case (1 usable cur q)
  obtain hs rem where q: "q = (hs, rem)" by (cases q)
  show ?case
  proof (cases "round_robin_cond usable cur q")
    case True
    from "1.prems" have "int (length (fst (round_robin_pass usable cur q))) \<le> b"
      unfolding q by (simp add: round_robin_pass_bound)
    with 1 True have "int (length (fst (round_robin usable cur (round_robin_pass usable cur q)))) \<le> b"
      by simp
    with True show ?thesis by (subst round_robin.simps) simp
  next
    case False
    with "1.prems" show ?thesis by (subst round_robin.simps) simp
  qed
qed

lemma turn_in_set: "turn [a, b, c] idx \<in> {a, b, c}"
proof -
  have "idx mod 4 < 4" by simp
  then consider "idx mod 4 = 0" | "idx mod 4 = 1" | "idx mod 4 = 2" | "idx mod 4 = 3"
    by linarith
  then show ?thesis by cases (simp_all add: turn_simps)
qed

lemma ratio_step_eq:
  "ratio_step cur (hs, rem, idx) =
     (if rem (turn cur idx) \<noteq> []
      then (hs @ [hd (rem (turn cur idx))], rem(turn cur idx := tl (rem (turn cur idx))), idx + 1)
      else (hs, rem, idx + 1))"
  by (simp add: ratio_step_def turn_def Let_def)

lemma ratio_step_packed:
  assumes "distinct K" "{a, b, c} \<subseteq> set K"
  shows "packed3 K (ratio_step [a, b, c] q) = packed3 K q"
proof -
  obtain hs rem idx where q: "q = (hs, rem, idx)" by (metis surj_pair)
  from assms(2) turn_in_set[of a b c idx] have t: "turn [a, b, c] idx \<in> set K" by blast
  show ?thesis
  proof (cases "rem (turn [a, b, c] idx) \<noteq> []")
    case True
    with pool_pop[of K "turn [a, b, c] idx" rem] assms(1) t show ?thesis
      unfolding q ratio_step_eq by (simp add: packed3_def)
  next
    case False
    then show ?thesis unfolding q ratio_step_eq by (simp add: packed3_def)
  qed
qed

lemma ratio_step_bound:
  assumes "ratio_cond usable cur q" "usable \<le> b"
  shows "int (length (fst (ratio_step cur q))) \<le> b"
proof -
  obtain hs rem idx where q: "q = (hs, rem, idx)" by (metis surj_pair)
  from assms show ?thesis unfolding q ratio_step_eq by (auto simp: ratio_cond_def)
qed

lemma ratio_loop_packed:
  "distinct K \<Longrightarrow> {a, b, c} \<subseteq> set K \<Longrightarrow> packed3 K (ratio_loop usable a b c q) = packed3 K q"
proof (induction usable a b c q rule: ratio_loop.induct)
  case (1 usable a b c q)
  show ?case
  proof (cases "ratio_cond usable [a, b, c] q")
    case True
    with 1 have "packed3 K (ratio_loop usable a b c (ratio_step [a, b, c] q))
        = packed3 K (ratio_step [a, b, c] q)" by simp
    also have "\<dots> = packed3 K q" using "1.prems" by (rule ratio_step_packed)
    finally show ?thesis using True by (subst ratio_loop.simps) simp
  next
    case False
    then show ?thesis by (subst ratio_loop.simps) simp
  qed
qed

lemma ratio_loop_bound:
  "int (length (fst q)) \<le> bd \<Longrightarrow> usable \<le> bd \<Longrightarrow>
   int (length (fst (ratio_loop usable a b c q))) \<le> bd"
proof (induction usable a b c q rule: ratio_loop.induct)
  case (1 usable a b c q)
  show ?case
  proof (cases "ratio_cond usable [a, b, c] q")
    case True
    from True "1.prems"(2) have "int (length (fst (ratio_step [a, b, c] q))) \<le> bd"
      by (rule ratio_step_bound)
    with 1 True have "int (length (fst (ratio_loop usable a b c (ratio_step [a, b, c] q)))) \<le> bd"
      by simp
    with True show ?thesis by (subst ratio_loop.simps) simp
  next
    case False
    with "1.prems" show ?thesis by (subst ratio_loop.simps) simp
  qed
qed

lemma pick_courses_subset:
  "set cur \<subseteq> set K \<Longrightarrow> set cs \<subseteq> set K \<Longrightarrow> set (pick_courses k rem cs cur) \<subseteq> set K"
  by (induction cs arbitrary: cur) (auto simp: Let_def)

lemma mset_pool_perm: "mset K' = mset K \<Longrightarrow> mset (pool K' rem) = mset (pool K rem)"
proof -
  assume a: "mset K' = mset K"
  have "\<And>L. sum_list (map (\<lambda>k. mset (rem k)) L) = sum_mset (image_mset (\<lambda>k. mset (rem k)) (mset L))"
    by (metis mset_map sum_mset_sum_list)
  then show ?thesis by (simp add: pool_def mset_concat comp_def a)
qed

lemma group_step_ok:
  assumes "grouped_ok g"
  shows "grouped_ok (group_step x g)"
    and "mset (pool (fst (group_step x g)) (snd (group_step x g))) = mset (pool (fst g) (snd g)) + {#x#}"
proof -
  obtain keys m where g: "g = (keys, m)" by (cases g)
  from assms g have d: "distinct keys" and e: "\<And>c. c \<notin> set keys \<Longrightarrow> m c = []"
    by (auto simp: grouped_ok_def)
  show "grouped_ok (group_step x g)"
    using d e by (auto simp: g group_step_def grouped_ok_def Let_def)
  show "mset (pool (fst (group_step x g)) (snd (group_step x g))) = mset (pool (fst g) (snd g)) + {#x#}"
  proof (cases "course_code x \<in> set keys")
    case True
    have "sum_list (map (\<lambda>k. mset ((m(course_code x := m (course_code x) @ [x])) k)) keys)
        = sum_list (map (\<lambda>k. mset (m k)) keys) + {#x#}"
      by (rule sum_list_one_changed'[OF d True]) simp_all
    with True show ?thesis
      by (simp add: g group_step_def Let_def pool_def mset_concat comp_def)
  next
    case False
    then have "map (m(course_code x := m (course_code x) @ [x])) keys = map m keys"
      by (intro map_cong) auto
    with False e[OF False] show ?thesis
      by (simp add: g group_step_def Let_def pool_def)
  qed
qed

lemma fold_group_step:
  "grouped_ok g \<Longrightarrow>
   grouped_ok (fold group_step ss g)
   \<and> mset (pool (fst (fold group_step ss g)) (snd (fold group_step ss g)))
       = mset (pool (fst g) (snd g)) + mset ss"
proof (induction ss arbitrary: g)
  case Nil
  then show ?case by simp
next
  case (Cons x ss)
  from Cons.prems have ok: "grouped_ok (group_step x g)" by (rule group_step_ok(1))
  from Cons.IH[OF ok] group_step_ok(2)[OF Cons.prems, of x] show ?case by simp
qed

lemma group_by_course_ok:
  "distinct (fst (group_by_course ss))"
  "mset (pool (fst (group_by_course ss)) (snd (group_by_course ss))) = mset ss"
proof -
  have eq: "group_by_course ss = fold group_step ss ([], \<lambda>_. [])"
    by (simp add: group_by_course_def group_step_def)
  have ok: "grouped_ok ([], \<lambda>_. [])" by (simp add: grouped_ok_def)
  from fold_group_step[OF ok, of ss] show "distinct (fst (group_by_course ss))"
    unfolding eq by (auto simp: grouped_ok_def split: prod.splits)
  from fold_group_step[OF ok, of ss]
  show "mset (pool (fst (group_by_course ss)) (snd (group_by_course ss))) = mset ss"
    unfolding eq by (simp add: pool_def)
qed

lemma courses_by_size_ok:
  "distinct (courses_by_size (group_by_course ss))"
  "mset (pool (courses_by_size (group_by_course ss)) (snd (group_by_course ss))) = mset ss"
proof -
  obtain keys m where g: "group_by_course ss = (keys, m)" by (cases "group_by_course ss")
  from group_by_course_ok[of ss] g have d: "distinct keys" and p: "mset (pool keys m) = mset ss"
    by simp_all
  show "distinct (courses_by_size (group_by_course ss))"
    using d by (simp add: g courses_by_size_def)
  have "mset (pool (sort_key (\<lambda>c. - int (length (m c))) keys) m) = mset (pool keys m)"
    by (rule mset_pool_perm) simp
  with p show "mset (pool (courses_by_size (group_by_course ss)) (snd (group_by_course ss))) = mset ss"
    by (simp add: g courses_by_size_def)
qed

lemma pack_exam1_cases:
  "(\<exists>a b c. cur = [a, b, c]
       \<and> pack_exam1 usable cur rem
           = (case ratio_loop usable a b c ([], rem, 0) of (hs, rem', idx) \<Rightarrow> (hs, rem')))
   \<or> pack_exam1 usable cur rem = round_robin usable cur ([], rem)"
  by (simp add: pack_exam1_def split: list.splits)

lemma pack_exam1_props:
  assumes "distinct K" "set cur \<subseteq> set K" "pack_exam1 usable cur rem = (xs, rem')"
  shows "mset xs + mset (pool K rem') = mset (pool K rem)"
    and "usable \<le> int k \<Longrightarrow> length xs \<le> k"
proof -
  have "mset xs + mset (pool K rem') = mset (pool K rem)
      \<and> (usable \<le> int k \<longrightarrow> length xs \<le> k)"
  proof -
    consider a b c where "cur = [a, b, c]"
        "pack_exam1 usable cur rem
           = (case ratio_loop usable a b c ([], rem, 0) of (hs, rem', idx) \<Rightarrow> (hs, rem'))"
      | "pack_exam1 usable cur rem = round_robin usable cur ([], rem)"
      using pack_exam1_cases[of cur usable rem] by blast
    then show ?thesis
    proof cases
    case (1 a b c)
    obtain hs r i where l: "ratio_loop usable a b c ([], rem, 0) = (hs, r, i)"
      by (metis surj_pair)
    with 1 assms(3) have e: "hs = xs" "r = rem'" by simp_all
    from 1 assms(2) have "{a, b, c} \<subseteq> set K" by simp
    with assms(1) have "packed3 K (ratio_loop usable a b c ([], rem, 0)) = packed3 K ([], rem, 0)"
      by (rule ratio_loop_packed)
    then have p: "mset xs + mset (pool K rem') = mset (pool K rem)"
      by (simp add: l e packed3_def)
    have "usable \<le> int k \<Longrightarrow> length xs \<le> k"
      using ratio_loop_bound[of "([], rem, 0)" "int k" usable a b c] by (simp add: l e)
    with p show ?thesis by simp
  next
    case 2
    with assms(3) have l: "round_robin usable cur ([], rem) = (xs, rem')" by simp
    from assms(1,2) have "packed K (round_robin usable cur ([], rem)) = packed K ([], rem)"
      by (rule round_robin_packed)
    then have p: "mset xs + mset (pool K rem') = mset (pool K rem)"
      by (simp add: l packed_def)
    have "usable \<le> int k \<Longrightarrow> length xs \<le> k"
      using round_robin_bound[of "([], rem)" "int k" usable cur] by (simp add: l)
    with p show ?thesis by simp
  qed
  qed
  then show "mset xs + mset (pool K rem') = mset (pool K rem)"
    and "usable \<le> int k \<Longrightarrow> length xs \<le> k" by simp_all
qed

lemma first_pass_hall_eq:
  "first_pass_hall K h (rem, st) =
     (let current_courses = pick_courses 4 rem K []
      in if current_courses = [] then Inr (rem, st)
         else case pack_exam1 (usable_capacity h) current_courses rem of
                (xs, rem') \<Rightarrow>
                  (case place_row_wise h (sort_key reg_sort_key xs) st of
                     Inl e \<Rightarrow> Inl e
                   | Inr st' \<Rightarrow> Inr (rem', st')))"
  by (simp add: first_pass_hall_def pack_exam1_def usable_capacity_def Let_def
      split: prod.splits)

lemma first_pass_hall_inv:
  assumes inv: "run_inv n R H (h # hs) (pool K rem) st" and K: "distinct K"
    and H: "distinct (map hall_code H)" "h \<in> set H" "hall_code h \<notin> hall_code ` set hs"
  obtains rem' st' where "first_pass_hall K h (rem, st) = Inr (rem', st')"
    and "run_inv n R H hs (pool K rem') st'"
proof (cases "pick_courses 4 rem K [] = []")
  case True
  then have "first_pass_hall K h (rem, st) = Inr (rem, st)"
    by (simp add: first_pass_hall_eq)
  moreover from inv have "run_inv n R H hs (pool K rem) st" by (rule run_inv_skip)
  ultimately show ?thesis by (rule that)
next
  case False
  define cur where "cur = pick_courses 4 rem K []"
  have sub: "set cur \<subseteq> set K" unfolding cur_def by (rule pick_courses_subset) simp_all
  obtain xs rem' where pk: "pack_exam1 (usable_capacity h) cur rem = (xs, rem')"
    by (metis surj_pair)
  have u: "usable_capacity h \<le> int (rows h * cols h)"
    unfolding usable_capacity_def by (rule min.cobounded2)
  from K sub pk have pool: "mset xs + mset (pool K rem') = mset (pool K rem)"
    by (rule pack_exam1_props(1))
  from K sub pk u have len: "length xs \<le> rows h * cols h"
    by (rule pack_exam1_props(2))
  define xs' where "xs' = sort_key reg_sort_key xs"
  have pool': "mset xs' + mset (pool K rem') = mset (pool K rem)"
    using pool by (simp add: xs'_def)
  have len': "length xs' \<le> rows h * cols h" using len by (simp add: xs'_def)
  show ?thesis
  proof (rule run_inv_place[OF inv H good_cols_row_wise pool' len', of False], goal_cases)
    case (1 st')
    from 1(1) have "place_row_wise h xs' st = Inr st'" by (simp add: place_row_wise_def)
    with False pk have "first_pass_hall K h (rem, st) = Inr (rem', st')"
      by (simp add: first_pass_hall_eq cur_def[symmetric] xs'_def)
    then show ?case using 1(2) by (rule that)
  qed
qed

lemma first_pass_inv:
  assumes "run_inv n R H hs (pool K rem) st" "distinct K" "distinct (map hall_code H)"
    "set hs \<subseteq> set H" "distinct (map hall_code hs)"
  obtains rem' st' where "first_pass K hs (rem, st) = Inr (rem', st')"
    and "run_inv n R H [] (pool K rem') st'"
  using assms
proof (induction hs arbitrary: rem st thesis)
  case Nil
  then show ?case by simp
next
  case (Cons h hs)
  from Cons.prems have h: "h \<in> set H" "hall_code h \<notin> hall_code ` set hs" by auto
  show ?case
  proof (rule first_pass_hall_inv[OF Cons.prems(2) Cons.prems(3) Cons.prems(4) h], goal_cases)
    case (1 rem1 st1)
    show ?case
    proof (rule Cons.IH[of rem1 st1])
      show "run_inv n R H hs (pool K rem1) st1" by (rule 1(2))
      show "distinct K" by (rule Cons.prems(3))
      show "distinct (map hall_code H)" by (rule Cons.prems(4))
      show "set hs \<subseteq> set H" using Cons.prems(5) by simp
      show "distinct (map hall_code hs)" using Cons.prems(6) by simp
    next
      fix rem' st'
      assume "first_pass K hs (rem1, st1) = Inr (rem', st')"
        and r: "run_inv n R H [] (pool K rem') st'"
      with 1(1) have "first_pass K (h # hs) (rem, st) = Inr (rem', st')" by simp
      then show thesis using r by (rule Cons.prems(1))
    qed
  qed
qed

lemma pool_empty_iff: "sum_list (map (\<lambda>c. length (rem c)) K) = 0 \<longleftrightarrow> pool K rem = []"
  by (auto simp: pool_def)

lemma allocate_seats_exam1_run_inv:
  assumes "distinct (map hall_code halls)" "distinct (map reg_no students)"
    and "allocate_seats_exam1 students halls = Inr st"
  shows "run_inv (length students) (reg_no ` set students) halls [] [] st"
proof -
  define g where "g = group_by_course (students_sorted students)"
  define K where "K = courses_by_size g"
  have K: "distinct K" unfolding K_def g_def by (rule courses_by_size_ok(1))
  have "mset (pool K (snd g)) = mset (students_sorted students)"
    unfolding K_def g_def by (rule courses_by_size_ok(2))
  then have p: "mset (pool K (snd g)) = mset students" by (simp add: students_sorted_def)
  from assms(1,2) have "run_inv (length students) (reg_no ` set students) halls halls students (init halls)"
    by (rule run_inv_init)
  then have "run_inv (length students) (reg_no ` set students) halls halls (pool K (snd g)) (init halls)"
    using p by (rule run_inv_perm)
  then obtain rem' st' where fp: "first_pass K halls (snd g, init halls) = Inr (rem', st')"
    and inv: "run_inv (length students) (reg_no ` set students) halls [] (pool K rem') st'"
    using first_pass_inv[of "length students" "reg_no ` set students" halls halls K "snd g" "init halls"]
      K assms(1) by blast
  from assms(3) fp have "pool K rem' = [] \<and> st = st'"
    by (auto simp: allocate_seats_exam1_def passes_exam1_def Let_def g_def[symmetric]
          K_def[symmetric] pool_def
        split: sum.splits if_splits prod.splits)
  with inv show ?thesis by simp
qed

section \<open>Seats, students and the ledger\<close>

lemma raised_None: "raised r = None \<Longrightarrow> r = Inr (final_state r)"
  by (cases r) (auto simp: raised_def final_state_def)

text \<open>
  Claim C1, for halls with pairwise distinct codes: on every input with distinct
  registration numbers on which \<^verbatim>\<open>allocate_seats\<close> of Exam1 or of the University script
  returns, the occupied cells of all grids are as many as the students, and every
  student's registration number is in exactly one cell (hall code, row, column).
\<close>

theorem seats_match_students:
  assumes "distinct (map hall_code halls)" and "distinct (map reg_no students)"
    and "allocate_seats_exam1 students halls = Inr st
         \<or> allocate_seats_university students halls = Inr st"
  shows "occupied_cells halls st = length students
    \<and> (\<forall>s\<in>set students.
          \<exists>!seat. cell st (fst seat) (fst (snd seat)) (snd (snd seat)) = Some (reg_no s))"
proof -
  from assms have inv: "run_inv (length students) (reg_no ` set students) halls [] [] st"
    by (auto intro: allocate_seats_exam1_run_inv allocate_seats_university_run_inv)
  then have occ: "occupied_cells halls st = length students"
    and con: "consistent st" and dom: "dom (allocations st) = reg_no ` set students"
    by (simp_all add: run_inv_def)
  have "\<exists>!seat. cell st (fst seat) (fst (snd seat)) (snd (snd seat)) = Some (reg_no s)"
    if "s \<in> set students" for s
  proof -
    from that dom obtain e where e: "allocations st (reg_no s) = Some e" by blast
    with con have c: "cell st (a_hall_code e) (a_row e - 1) (a_col e - 1) = Some (reg_no s)"
      by (simp add: consistent_def)
    show ?thesis
    proof (rule ex1I[of _ "(a_hall_code e, a_row e - 1, a_col e - 1)"])
      show "cell st (fst (a_hall_code e, a_row e - 1, a_col e - 1))
              (fst (snd (a_hall_code e, a_row e - 1, a_col e - 1)))
              (snd (snd (a_hall_code e, a_row e - 1, a_col e - 1))) = Some (reg_no s)"
        using c by simp
    next
      fix seat
      assume "cell st (fst seat) (fst (snd seat)) (snd (snd seat)) = Some (reg_no s)"
      with con have "map_option seat_of (allocations st (reg_no s))
          = Some (fst seat, fst (snd seat) + 1, snd (snd seat) + 1)"
        by (simp add: consistent_def)
      with e have "seat_of e = (fst seat, fst (snd seat) + 1, snd (snd seat) + 1)" by simp
      then show "seat = (a_hall_code e, a_row e - 1, a_col e - 1)"
        by (cases seat) (auto simp: seat_of_def)
    qed
  qed
  with occ show ?thesis by blast
qed

theorem seats_match_students_witness:
  "distinct (map hall_code [room ''A'' 2 2 4, room ''B'' 1 2 2])
   \<and> distinct (map reg_no five_courses)
   \<and> raised (allocate_seats_university five_courses [room ''A'' 2 2 4, room ''B'' 1 2 2]) = None
   \<and> occupied_cells [room ''A'' 2 2 4, room ''B'' 1 2 2]
        (final_state (allocate_seats_university five_courses [room ''A'' 2 2 4, room ''B'' 1 2 2]))
      = length five_courses"
proof -
  have d: "distinct (map hall_code [room ''A'' 2 2 4, room ''B'' 1 2 2])"
    and r: "distinct (map reg_no five_courses)"
    and ok: "raised (allocate_seats_university five_courses [room ''A'' 2 2 4, room ''B'' 1 2 2]) = None"
    by code_simp+
  from ok have "allocate_seats_university five_courses [room ''A'' 2 2 4, room ''B'' 1 2 2]
      = Inr (final_state (allocate_seats_university five_courses [room ''A'' 2 2 4, room ''B'' 1 2 2]))"
    by (rule raised_None)
  with seats_match_students[OF d r] d r ok show ?thesis by blast
qed

text \<open>
  Claim C1 as stated does not ask for distinct hall codes. Two students and two 1 x 1
  halls that share the code \<open>A\<close> share one grid: the run of the University script
  returns, and the second student has overwritten the first in the only cell.
\<close>

theorem seats_double_assigned_counterexample:
  "distinct (map reg_no twins)
   \<and> raised (allocate_seats_university twins same_code_halls) = None
   \<and> length twins = 2
   \<and> occupied_cells same_code_halls
        (final_state (allocate_seats_university twins same_code_halls)) = 1"
  by code_simp

text \<open>
  Claim C10, for halls with pairwise distinct codes: after a run of Exam1 or of the
  University script that returns, on distinct registration numbers, every ledger entry
  of a student names (1-based) the cell that holds that student, and every occupied cell
  holds a student whose ledger entry names that cell.
\<close>

theorem ledger_matches_grids:
  assumes "distinct (map hall_code halls)" and "distinct (map reg_no students)"
    and "allocate_seats_exam1 students halls = Inr st
         \<or> allocate_seats_university students halls = Inr st"
  shows "(\<forall>reg e. allocations st reg = Some e \<longrightarrow>
            1 \<le> a_row e \<and> 1 \<le> a_col e
            \<and> cell st (a_hall_code e) (a_row e - 1) (a_col e - 1) = Some reg)
    \<and> (\<forall>code r c reg. cell st code r c = Some reg \<longrightarrow>
            map_option seat_of (allocations st reg) = Some (code, r + 1, c + 1))"
proof -
  from assms have "run_inv (length students) (reg_no ` set students) halls [] [] st"
    by (auto intro: allocate_seats_exam1_run_inv allocate_seats_university_run_inv)
  then have "consistent st" by (simp add: run_inv_def)
  then show ?thesis by (simp only: consistent_def)
qed

theorem ledger_matches_grids_witness:
  "distinct (map hall_code [room ''A'' 2 2 4, room ''B'' 1 2 2])
   \<and> distinct (map reg_no five_courses)
   \<and> raised (allocate_seats_exam1 five_courses [room ''A'' 2 2 4, room ''B'' 1 2 2]) = None
   \<and> map_option seat_of
        (allocations (final_state
           (allocate_seats_exam1 five_courses [room ''A'' 2 2 4, room ''B'' 1 2 2])) ''5'')
      = Some (''B'', 1, 1)
   \<and> cell (final_state (allocate_seats_exam1 five_courses [room ''A'' 2 2 4, room ''B'' 1 2 2]))
        ''B'' 0 0 = Some ''5''"
proof -
  let ?st = "final_state (allocate_seats_exam1 five_courses [room ''A'' 2 2 4, room ''B'' 1 2 2])"
  have d: "distinct (map hall_code [room ''A'' 2 2 4, room ''B'' 1 2 2])"
    and r: "distinct (map reg_no five_courses)"
    and ok: "raised (allocate_seats_exam1 five_courses [room ''A'' 2 2 4, room ''B'' 1 2 2]) = None"
    and c: "cell ?st ''B'' 0 0 = Some ''5''"
    by code_simp+
  from ok have "allocate_seats_exam1 five_courses [room ''A'' 2 2 4, room ''B'' 1 2 2] = Inr ?st"
    by (rule raised_None)
  then have "\<forall>code r c reg. cell ?st code r c = Some reg \<longrightarrow>
            map_option seat_of (allocations ?st reg) = Some (code, r + 1, c + 1)"
    using ledger_matches_grids[OF d r, of ?st] by blast
  with c have "map_option seat_of (allocations ?st ''5'') = Some (''B'', 0 + 1, 0 + 1)" by blast
  with d r ok c show ?thesis by simp
qed

text \<open>
  Claim C10 as stated does not ask for distinct hall codes. With the two halls of code
  \<open>A\<close> the run of Exam1 returns; the ledger sends student 1 to row 1, column 1 of
  \<open>A\<close>, where the grid holds student 2.
\<close>

theorem ledger_grid_mismatch_counterexample:
  "distinct (map reg_no twins)
   \<and> raised (allocate_seats_exam1 twins same_code_halls) = None
   \<and> map_option seat_of
        (allocations (final_state (allocate_seats_exam1 twins same_code_halls)) ''1'')
      = Some (''A'', 1, 1)
   \<and> cell (final_state (allocate_seats_exam1 twins same_code_halls)) ''A'' 0 0 = Some ''2''"
  by code_simp


section \<open>Hall selector: properties\<close>

lemma total_seats_Cons [simp]: "total_seats (h # hs) = rows h * cols h + total_seats hs"
  by (simp add: total_seats_def)

lemma total_seats_Nil [simp]: "total_seats [] = 0"
  by (simp add: total_seats_def)

lemma total_seats_mset: "mset hs = mset hs' \<Longrightarrow> total_seats hs = total_seats hs'"
proof -
  assume "mset hs = mset hs'"
  then have "mset (map (\<lambda>h. rows h * cols h) hs) = mset (map (\<lambda>h. rows h * cols h) hs')"
    by simp
  then have "sum_mset (mset (map (\<lambda>h. rows h * cols h) hs))
      = sum_mset (mset (map (\<lambda>h. rows h * cols h) hs'))"
    by (simp only:)
  then show ?thesis by (simp only: total_seats_def sum_mset_sum_list)
qed


lemma select_codes_mono: "sel \<subseteq> select_codes req hs cap_acc sel"
proof (induction hs arbitrary: cap_acc sel)
  case Nil
  then show ?case by simp
next
  case (Cons h hs)
  have "insert (hall_code h) sel \<subseteq> select_codes req hs (cap_acc + rows h * cols h) (insert (hall_code h) sel)"
    by (rule Cons.IH)
  then show ?case by (auto simp: Let_def)
qed

lemma select_codes_all:
  "cap_acc + total_seats hs < req \<Longrightarrow>
   select_codes req hs cap_acc sel = sel \<union> hall_code ` set hs"
proof (induction hs arbitrary: cap_acc sel)
  case Nil
  then show ?case by simp
next
  case (Cons h hs)
  from Cons.prems have "cap_acc + rows h * cols h + total_seats hs < req" by simp
  then have "select_codes req hs (cap_acc + rows h * cols h) (insert (hall_code h) sel)
      = insert (hall_code h) sel \<union> hall_code ` set hs"
    by (rule Cons.IH)
  with Cons.prems show ?case by (simp add: Let_def)
qed

lemma select_codes_covers:
  "min req (cap_acc + total_seats hs)
     \<le> cap_acc + total_seats (filter (\<lambda>h. hall_code h \<in> select_codes req hs cap_acc sel) hs)"
proof (induction hs arbitrary: cap_acc sel)
  case Nil
  then show ?case by simp
next
  case (Cons h hs)
  let ?acc = "cap_acc + rows h * cols h" and ?sel = "insert (hall_code h) sel"
  show ?case
  proof (cases "req \<le> ?acc")
    case True
    then show ?thesis by (simp add: Let_def)
  next
    case False
    have "hall_code h \<in> select_codes req hs ?acc ?sel"
      using select_codes_mono[of ?sel req hs ?acc] by auto
    moreover have "min req (?acc + total_seats hs)
        \<le> ?acc + total_seats (filter (\<lambda>h. hall_code h \<in> select_codes req hs ?acc ?sel) hs)"
      by (rule Cons.IH)
    ultimately show ?thesis using False by (simp add: Let_def add.assoc)
  qed
qed

lemma halls_by_capacity_mset: "mset (halls_by_capacity halls) = mset halls"
  by (simp add: halls_by_capacity_def)

lemma total_seats_halls_to_use:
  "min (required_capacity n) (total_seats halls) \<le> total_seats (halls_to_use n halls)"
proof -
  define sel where "sel = select_codes (required_capacity n) (halls_by_capacity halls) 0 {}"
  have "mset (filter (\<lambda>h. hall_code h \<in> sel) (halls_by_capacity halls))
      = mset (filter (\<lambda>h. hall_code h \<in> sel) halls)"
    by (simp add: halls_by_capacity_mset)
  then have "total_seats (filter (\<lambda>h. hall_code h \<in> sel) (halls_by_capacity halls))
      = total_seats (halls_to_use n halls)"
    unfolding halls_to_use_def Let_def sel_def by (rule total_seats_mset)
  moreover have "total_seats (halls_by_capacity halls) = total_seats halls"
    by (rule total_seats_mset) (rule halls_by_capacity_mset)
  ultimately show ?thesis
    using select_codes_covers[of "required_capacity n" 0 "halls_by_capacity halls" "{}"]
    by (simp add: sel_def)
qed

lemma required_capacity_ge: "n \<le> required_capacity n"
  by (simp add: required_capacity_def)

lemma halls_to_use_all:
  assumes "total_seats halls < required_capacity n"
  shows "halls_to_use n halls = halls"
proof -
  have "total_seats (halls_by_capacity halls) = total_seats halls"
    by (rule total_seats_mset) (rule halls_by_capacity_mset)
  with assms have "0 + total_seats (halls_by_capacity halls) < required_capacity n" by simp
  then have "select_codes (required_capacity n) (halls_by_capacity halls) 0 {}
      = {} \<union> hall_code ` set (halls_by_capacity halls)"
    by (rule select_codes_all)
  also have "\<dots> = hall_code ` set halls" by (simp add: halls_by_capacity_def)
  finally show ?thesis by (simp add: halls_to_use_def)
qed

lemma validated_enough_selected:
  assumes "validate_inputs students halls = Inr ()"
  shows "length students \<le> total_seats (halls_to_use (length students) halls)"
proof -
  from assms have "length students \<le> total_seats halls"
    by (simp add: validate_inputs_def split: if_splits)
  with required_capacity_ge[of "length students"]
  have "length students \<le> min (required_capacity (length students)) (total_seats halls)" by simp
  with total_seats_halls_to_use[of "length students" halls] show ?thesis by linarith
qed

lemma place_student_error:
  "place_student h r c s st = Inl (e, st') \<Longrightarrow> e = IndexError \<or> e = KeyError"
  by (auto simp: place_student_def set_seat_def split: option.splits if_splits sum.splits)

lemma place_row_error:
  "place_row h r cs ss st = Inl (e, st') \<Longrightarrow> e = IndexError \<or> e = KeyError"
proof (induction h r cs ss st rule: place_row.induct)
  case (3 h r c cs s ss st)
  then show ?case
    by (cases "place_student h r c s st") (auto dest: place_student_error)
qed simp_all

lemma place_rows_error:
  "place_rows brk colr h rs ss st = Inl (e, st') \<Longrightarrow> e = IndexError \<or> e = KeyError"
proof (induction rs arbitrary: ss st)
  case Nil
  then show ?case by simp
next
  case (Cons r rs)
  show ?case
  proof (cases "place_row h r (colr r) ss st")
    case (Inl x)
    with Cons.prems show ?thesis
      by (cases x) (auto dest: place_row_error split: if_splits)
  next
    case (Inr y)
    with Cons.prems Cons.IH[of "fst y" "snd y"] show ?thesis
      by (cases y) (auto split: if_splits)
  qed
qed

lemma allocate_hall_university_error:
  "allocate_hall_university sph h q = Inl (e, st') \<Longrightarrow> e = IndexError \<or> e = KeyError"
  by (auto simp: allocate_hall_university_def place_s_pattern_def Let_def
      dest: place_rows_error split: prod.splits if_splits sum.splits)

lemma halls_loop_university_error:
  "halls_loop_university sph hs q = Inl (e, st') \<Longrightarrow> e = IndexError \<or> e = KeyError"
proof (induction hs arbitrary: q)
  case Nil
  then show ?case by simp
next
  case (Cons h hs)
  then show ?case
    by (cases "allocate_hall_university sph h q")
       (auto dest: allocate_hall_university_error)
qed

text \<open>
  Claim C6, as the code has it. The University script raises its "not enough selected
  hall seats" error when the selected halls hold fewer grid seats than there are
  students, not when they miss the threshold rounded up to 25. After validation the
  selected halls always hold at least as many seats as there are students, so no run
  ends in that error; and when all halls together stay below the rounded threshold,
  every hall is selected, in declared order.
\<close>

theorem never_insufficient_capacity:
  "raised (allocate_seats_university students halls) \<noteq> Some InsufficientCapacityError
   \<and> (total_seats halls < required_capacity (length students) \<longrightarrow>
        halls_to_use (length students) halls = halls)"
proof
  show "raised (allocate_seats_university students halls) \<noteq> Some InsufficientCapacityError"
  proof (cases "validate_inputs students halls")
    case (Inl e)
    then have "e = CapacityError" by (auto simp: validate_inputs_def split: if_splits)
    with Inl show ?thesis by (simp add: allocate_seats_university_def raised_def)
  next
    case (Inr u)
    then have "\<not> total_seats (halls_to_use (length students) halls) < length students"
      using validated_enough_selected[of students halls] by simp
    with Inr show ?thesis
      by (auto simp: allocate_seats_university_def raised_def Let_def
          dest: halls_loop_university_error split: sum.splits)
  qed
  show "total_seats halls < required_capacity (length students) \<longrightarrow>
        halls_to_use (length students) halls = halls"
    by (simp add: halls_to_use_all)
qed

theorem never_insufficient_capacity_witness:
  "total_seats [room ''A'' 2 2 4] < required_capacity (length twins)
   \<and> halls_to_use (length twins) [room ''A'' 2 2 4] = [room ''A'' 2 2 4]
   \<and> raised (allocate_seats_university twins [room ''A'' 2 2 4]) \<noteq> Some InsufficientCapacityError"
proof -
  have "total_seats [room ''A'' 2 2 4] < required_capacity (length twins)" by code_simp
  with never_insufficient_capacity[of twins "[room ''A'' 2 2 4]"] show ?thesis by blast
qed

text \<open>
  Claim C6 as stated: two students need the threshold 25, the only hall has 4 seats, so
  the accumulated halls cannot reach the threshold; the run returns without any error.
\<close>

theorem threshold_not_reached_counterexample:
  "total_seats [room ''A'' 2 2 4] < required_capacity (length twins)
   \<and> raised (allocate_seats_university twins [room ''A'' 2 2 4]) = None"
  by code_simp


section \<open>Floating-point arithmetic: rounding error\<close>





lemma fl_zero [simp]: "fl 0 = 0"
  by (simp add: fl_def)









section \<open>Proportional distributor: properties\<close>























section \<open>Exact fit\<close>







section \<open>Pre-placement sort: properties\<close>



lemma key_ordered_empty: "hall_empty h st \<Longrightarrow> key_ordered st (hall_code h)"
  by (simp add: key_ordered_def hall_empty_def)










end
